theory Spec2Isabelle
  imports Main "HOL-Library.AList"
begin

section \<open>Strings\<close>

text \<open>
  A Python \<open>str\<close> is a sequence of code points. The model keeps the code points
  below 256 (Latin-1), one \<^typ>\<open>char\<close> each; \<open>of_char c\<close> is the code point.
  \<open>isspace\<close> is the set of characters \<open>str.strip()\<close> removes in that range,
  \<open>lower_char\<close> is \<open>str.lower()\<close> on one character of that range.
\<close>

definition isspace :: "char \<Rightarrow> bool" where
  "isspace c =
     (let n = (of_char c :: nat)
      in (9 \<le> n \<and> n \<le> 13) \<or> (28 \<le> n \<and> n \<le> 32) \<or> n = 133 \<or> n = 160)"

definition lower_char :: "char \<Rightarrow> char" where
  "lower_char c =
     (let n = (of_char c :: nat)
      in if (65 \<le> n \<and> n \<le> 90) \<or> (192 \<le> n \<and> n \<le> 222 \<and> n \<noteq> 215)
         then char_of (n + 32) else c)"

definition py_strip :: "string \<Rightarrow> string" where
  "py_strip s = rev (dropWhile isspace (rev (dropWhile isspace s)))"

definition py_lower :: "string \<Rightarrow> string" where
  "py_lower s = map lower_char s"

text \<open>The expression \<open>tag.strip().lower()\<close> of \<open>add_tags\<close>,
  \<open>add_tags_to_directory\<close> and \<open>search_by_tags\<close>.\<close>

definition norm_tag :: "string \<Rightarrow> string" where
  "norm_tag tag = py_lower (py_strip tag)"

section \<open>Paths\<close>

text \<open>
  \<open>str(Path(filepath))\<close> in pathlib's POSIX flavour: the path is split at
  \<open>/\<close>, empty components and \<open>.\<close> components are dropped, a leading
  \<open>/\<close> is kept as the root (exactly two leading slashes are kept as \<open>//\<close>),
  and the empty path is written \<open>.\<close>. Nothing is made absolute and \<open>..\<close> is
  kept. The Windows flavour is not modelled.
\<close>

fun split_on :: "char \<Rightarrow> string \<Rightarrow> string list" where
  "split_on c [] = [[]]"
| "split_on c (x # xs) =
     (if x = c then [] # split_on c xs
      else (case split_on c xs of
              [] \<Rightarrow> [[x]]
            | w # ws \<Rightarrow> (x # w) # ws))"

fun join_with :: "string \<Rightarrow> string list \<Rightarrow> string" where
  "join_with sep [] = []"
| "join_with sep [w] = w"
| "join_with sep (w # v # ws) = w @ sep @ join_with sep (v # ws)"

definition posix_root :: "string \<Rightarrow> string" where
  "posix_root s =
     (if take 1 s \<noteq> ''/'' then ''''
      else if take 1 (drop 1 s) \<noteq> ''/'' \<or> take 1 (drop 2 s) = ''/'' then ''/''
      else ''//'')"

definition posix_parts :: "string \<Rightarrow> string list" where
  "posix_parts s = filter (\<lambda>w. w \<noteq> [] \<and> w \<noteq> ''.'') (split_on CHR ''/'' s)"

definition py_path :: "string \<Rightarrow> string" where
  "py_path s =
     (let root = posix_root s; parts = posix_parts s
      in if root = [] \<and> parts = [] then ''.''
         else root @ join_with ''/'' parts)"

text \<open>A component that \<open>Path\<close> keeps: not empty, not \<open>.\<close>, without a separator.\<close>

definition part_ok :: "string \<Rightarrow> bool" where
  "part_ok w = (w \<noteq> [] \<and> w \<noteq> ''.'' \<and> CHR ''/'' \<notin> set w)"

text \<open>\<open>os.path.join(a, b)\<close> of posixpath, for two arguments.\<close>

definition os_path_join :: "string \<Rightarrow> string \<Rightarrow> string" where
  "os_path_join a b =
     (if take 1 b = ''/'' then b
      else if a = [] \<or> last a = CHR ''/'' then a @ b
      else a @ ''/'' @ b)"

section \<open>The tag manager\<close>

text \<open>
  \<open>tags_db\<close> is a Python dict from path strings to lists of tag strings. A dict
  keeps insertion order and \<open>search_by_tags\<close> returns the keys in that order, so
  the model is an association list: assigning to a present key replaces its value in
  place, assigning to an absent key appends it (\<^const>\<open>AList.update\<close>),
  \<open>del\<close> removes it (\<^const>\<open>AList.delete\<close>). A dict has every key once:
  \<open>distinct (map fst db)\<close>.

  Of \<open>FileTagManager\<close> the model keeps \<open>tags_db\<close>, the flag
  \<open>_pending_changes\<close> and the number of items in \<open>_save_queue\<close> (every item is
  \<open>True\<close>).
\<close>

type_synonym store = "(string \<times> string list) list"

record manager =
  tags_db :: store
  pending_changes :: bool
  save_queue :: nat

definition queue_save :: "manager \<Rightarrow> manager" where
  "queue_save m = m\<lparr>pending_changes := True, save_queue := save_queue m + 1\<rparr>"

text \<open>\<open>self.tags_db.get(key, [])\<close>.\<close>

definition db_get :: "store \<Rightarrow> string \<Rightarrow> string list" where
  "db_get db key = (case map_of db key of None \<Rightarrow> [] | Some tags \<Rightarrow> tags)"

text \<open>
  The loop \<open>for tag in tags: ...\<close> that \<open>add_tags\<close> and
  \<open>add_tags_to_directory\<close> both run on the list stored at one key; \<open>cur\<close> is
  that list.
\<close>

fun extend_tags :: "string list \<Rightarrow> string list \<Rightarrow> string list" where
  "extend_tags cur [] = cur"
| "extend_tags cur (tag # tags) =
     (let t = norm_tag tag
      in extend_tags (if t \<noteq> [] \<and> t \<notin> set cur then cur @ [t] else cur) tags)"

text \<open>
  The body run for one key: \<open>if key not in db: db[key] = []\<close>, then the loop.
  A new key is appended with the list the loop leaves, an old key keeps its place.
\<close>

definition tag_key :: "string list \<Rightarrow> store \<Rightarrow> string \<Rightarrow> store" where
  "tag_key tags db key = AList.update key (extend_tags (db_get db key) tags) db"

text \<open>
  \<open>add_tags\<close>, \<open>remove_tag\<close> and \<open>get_tags\<close> wrap their body in
  \<open>try\<close>; on arguments that are strings and lists of strings nothing in the body
  raises, so the model has no error branch.
\<close>

definition add_tags :: "manager \<Rightarrow> string \<Rightarrow> string list \<Rightarrow> manager" where
  "add_tags m filepath tags =
     queue_save (m\<lparr>tags_db := tag_key tags (tags_db m) (py_path filepath)\<rparr>)"

definition remove_tag :: "manager \<Rightarrow> string \<Rightarrow> string \<Rightarrow> manager" where
  "remove_tag m filepath tag =
     (let key = py_path filepath; db = tags_db m
      in case map_of db key of
           None \<Rightarrow> m
         | Some tags \<Rightarrow>
             if tag \<in> set tags
             then (let tags' = remove1 tag tags
                   in queue_save
                        (m\<lparr>tags_db := (if tags' = [] then AList.delete key db
                                        else AList.update key tags' db)\<rparr>))
             else m)"

definition get_tags :: "manager \<Rightarrow> string \<Rightarrow> string list" where
  "get_tags m filepath = db_get (tags_db m) (py_path filepath)"

definition search_by_tags :: "manager \<Rightarrow> string list \<Rightarrow> string list" where
  "search_by_tags m search_tags =
     (let qs = map norm_tag search_tags
      in map fst (filter (\<lambda>(filepath, tags). list_all (\<lambda>tag. tag \<in> set tags) qs)
                         (tags_db m)))"

text \<open>
  The store invariant of the data model: every stored list is non-empty and has no
  duplicates, every stored tag is non-empty, lowercase and trimmed.
\<close>

definition tag_ok :: "string \<Rightarrow> bool" where
  "tag_ok t = (t \<noteq> [] \<and> py_lower t = t \<and> py_strip t = t)"

definition store_inv :: "store \<Rightarrow> bool" where
  "store_inv db =
     list_all (\<lambda>(key, tags). tags \<noteq> [] \<and> distinct tags \<and> list_all tag_ok tags) db"

text \<open>
  The absolute spelling of \<open>p\<close> for a process whose working directory is
  \<open>cwd\<close>. This follows the data model's words (``absolute/normalized''); no
  function of the tag manager computes it.
\<close>

definition abs_spelling :: "string \<Rightarrow> string \<Rightarrow> string" where
  "abs_spelling cwd p = py_path (os_path_join cwd p)"

section \<open>Tagging a directory\<close>

text \<open>
  The directory tree that \<open>os.walk\<close> reads is a parameter: a directory has file
  names and named subdirectories, in the order the operating system lists them.
  \<open>os.walk\<close> yields the directory itself first and then walks each subdirectory;
  only the pair \<open>(root, filenames)\<close> of each triple is used. A directory that does
  not exist is walked as an empty one (\<open>os.walk\<close> ignores the error).
\<close>

datatype fs_tree = Dir (dir_files: "string list") (dir_subdirs: "(string \<times> fs_tree) list")

fun os_walk :: "string \<Rightarrow> fs_tree \<Rightarrow> (string \<times> string list) list" where
  "os_walk root (Dir filenames subdirs) =
     (root, filenames) #
     concat (map (\<lambda>sub. os_walk (os_path_join root (fst sub)) (snd sub)) subdirs)"

definition walk_files :: "string \<Rightarrow> fs_tree \<Rightarrow> string list" where
  "walk_files directory tree =
     concat (map (\<lambda>(root, filenames). map (os_path_join root) filenames)
                 (os_walk directory tree))"

text \<open>\<open>range(start, stop, step)\<close> for a positive step.\<close>

definition py_range :: "nat \<Rightarrow> nat \<Rightarrow> nat \<Rightarrow> nat list" where
  "py_range start stop step =
     map (\<lambda>k. start + k * step) [0..<(stop - start + step - 1) div step]"

text \<open>
  One round of \<open>for i in range(0, total_files, batch_size)\<close>. The state is the
  manager and the calls made to \<open>progress_callback\<close> so far; \<open>cb\<close> tells
  whether a callback was passed. The keys are the joined names as they are: this
  function does not go through \<open>Path\<close>.
\<close>

definition dir_batch ::
  "string list \<Rightarrow> string list \<Rightarrow> nat \<Rightarrow> nat \<Rightarrow> bool \<Rightarrow>
   manager \<times> (nat \<times> nat) list \<Rightarrow> nat \<Rightarrow> manager \<times> (nat \<times> nat) list" where
  "dir_batch tags files total_files batch_size cb st i =
     (let m = fst st; calls = snd st;
          batch = take batch_size (drop i files);
          m1 = m\<lparr>tags_db := foldl (tag_key tags) (tags_db m) batch\<rparr>;
          m2 = queue_save m1
      in (m2, if cb then calls @ [(min (i + batch_size) total_files, total_files)]
              else calls))"

definition add_tags_to_directory ::
  "manager \<Rightarrow> string \<Rightarrow> string list \<Rightarrow> bool \<Rightarrow> fs_tree \<Rightarrow>
   nat \<times> manager \<times> (nat \<times> nat) list" where
  "add_tags_to_directory m directory tags cb tree =
     (let files = walk_files directory tree;
          total_files = length files;
          batch_size = 100;
          st = foldl (dir_batch tags files total_files batch_size cb) (m, [])
                     (py_range 0 total_files batch_size)
      in (total_files, fst st, snd st))"

section \<open>Persistence\<close>

text \<open>
  \<open>json.dump(self.tags_db, temp_file, indent=4)\<close> on a dict of lists of strings,
  with the default \<open>ensure_ascii\<close>: every character outside the printable ASCII
  range, the double quote and the backslash are escaped.
\<close>

definition hex_digit :: "nat \<Rightarrow> char" where
  "hex_digit n = ''0123456789abcdef'' ! (n mod 16)"

definition json_escape_char :: "char \<Rightarrow> string" where
  "json_escape_char c =
     (let n = (of_char c :: nat)
      in if n = 0x22 then [CHR 0x5C, CHR 0x22]
         else if n = 0x5C then [CHR 0x5C, CHR 0x5C]
         else if n = 0x0A then [CHR 0x5C, CHR ''n'']
         else if n = 0x0D then [CHR 0x5C, CHR ''r'']
         else if n = 0x09 then [CHR 0x5C, CHR ''t'']
         else if n = 0x0C then [CHR 0x5C, CHR ''f'']
         else if n = 0x08 then [CHR 0x5C, CHR ''b'']
         else if 0x20 \<le> n \<and> n \<le> 0x7E then [c]
         else [CHR 0x5C, CHR ''u'', CHR ''0'', CHR ''0'',
               hex_digit (n div 16), hex_digit n])"

definition json_string :: "string \<Rightarrow> string" where
  "json_string s = CHR 0x22 # concat (map json_escape_char s) @ [CHR 0x22]"

definition indent :: "nat \<Rightarrow> string" where
  "indent level = CHR 0x0A # replicate (4 * level) CHR '' ''"

definition json_list :: "string list \<Rightarrow> string" where
  "json_list tags =
     (if tags = [] then ''[]''
      else ''['' @ indent 2 @ join_with ('','' @ indent 2) (map json_string tags)
           @ indent 1 @ '']'')"

definition json_dumps :: "store \<Rightarrow> string" where
  "json_dumps db =
     (if db = [] then ''{}''
      else ''{'' @ indent 1
           @ join_with ('','' @ indent 1)
               (map (\<lambda>(key, tags). json_string key @ '': '' @ json_list tags) db)
           @ indent 0 @ ''}'')"

text \<open>
  The disk holds the database file \<open>file_tags.json\<close> and its backup
  \<open>file_tags.json.backup\<close>; \<open>None\<close> is a file that does not exist. Temporary
  files are not tracked.

  What the operating system does is a parameter. For the writer it is one
  \<open>fault\<close> for each attempt: the step of the attempt that raises, and the
  exception. A fault of a step that the attempt does not reach has no effect.
\<close>

datatype exn =
    PermissionError | FileNotFoundError | JSONDecodeError
  | UnicodeDecodeError | RecursionError | OtherError

datatype platform = Win32 | Posix

record disk =
  db_file :: "string option"
  backup_file :: "string option"

datatype fault = NoFault | TempWriteRaises exn | RemoveRaises exn | RenameRaises exn

datatype attempt_result = Renamed disk | RemoveDenied disk | Raised exn disk

text \<open>
  The body of the \<open>try\<close> of one attempt: write the temporary file; if the database
  file exists and the platform is \<open>win32\<close>, remove it (a \<open>PermissionError\<close>
  there is caught by the inner handler); rename the temporary file to the database
  file.
\<close>

definition try_write :: "platform \<Rightarrow> store \<Rightarrow> fault \<Rightarrow> disk \<Rightarrow> attempt_result" where
  "try_write plat db f d =
     (case f of
        TempWriteRaises e \<Rightarrow> Raised e d
      | _ \<Rightarrow>
          if db_file d \<noteq> None \<and> plat = Win32
          then (case f of
                  RemoveRaises e \<Rightarrow>
                    if e = PermissionError then RemoveDenied d else Raised e d
                | RenameRaises e \<Rightarrow> Raised e (d\<lparr>db_file := None\<rparr>)
                | _ \<Rightarrow> Renamed (d\<lparr>db_file := Some (json_dumps db)\<rparr>))
          else (case f of
                  RenameRaises e \<Rightarrow> Raised e d
                | _ \<Rightarrow> Renamed (d\<lparr>db_file := Some (json_dumps db)\<rparr>)))"

text \<open>
  The loop \<open>for attempt in range(max_retries)\<close>. The result is the exception
  raised to the caller or the way the function returned (\<open>Replaced\<close>: the
  \<open>return\<close> after \<open>os.rename\<close>; \<open>LoopExhausted\<close>: the end of the loop), the
  attempts and sleeps in order, and the disk.
\<close>

datatype event = Attempt nat | Sleep nat

datatype save_exit = Replaced | LoopExhausted

function save_attempts ::
  "platform \<Rightarrow> store \<Rightarrow> (nat \<Rightarrow> fault) \<Rightarrow> nat \<Rightarrow> nat \<Rightarrow> nat \<Rightarrow> disk \<Rightarrow> event list \<Rightarrow>
   (exn + save_exit) \<times> event list \<times> disk" where
  "save_attempts plat db env max_retries attempt delay d tr =
     (if attempt < max_retries
      then (case try_write plat db (env attempt) d of
              Renamed d' \<Rightarrow> (Inr Replaced, tr @ [Attempt attempt], d')
            | RemoveDenied d' \<Rightarrow>
                save_attempts plat db env max_retries (attempt + 1) delay d'
                  (tr @ [Attempt attempt, Sleep delay])
            | Raised e d' \<Rightarrow>
                if attempt = max_retries - 1
                then (Inl e, tr @ [Attempt attempt], d')
                else save_attempts plat db env max_retries (attempt + 1) (delay * 2) d'
                       (tr @ [Attempt attempt, Sleep delay]))
      else (Inr LoopExhausted, tr, d))"
  by pat_completeness auto
termination
  by (relation "measure (\<lambda>(plat, db, env, max_retries, attempt, delay, d, tr).
                            max_retries - attempt)") auto

definition save_db_with_retry ::
  "platform \<Rightarrow> (nat \<Rightarrow> fault) \<Rightarrow> store \<Rightarrow> disk \<Rightarrow> (exn + save_exit) \<times> event list \<times> disk" where
  "save_db_with_retry plat env db d = save_attempts plat db env 3 0 1 d []"

definition sleeps :: "event list \<Rightarrow> nat list" where
  "sleeps tr = concat (map (\<lambda>ev. case ev of Sleep n \<Rightarrow> [n] | Attempt i \<Rightarrow> []) tr)"

definition attempts :: "event list \<Rightarrow> nat list" where
  "attempts tr = concat (map (\<lambda>ev. case ev of Attempt i \<Rightarrow> [i] | Sleep n \<Rightarrow> []) tr)"

subsection \<open>Reading the document back\<close>

text \<open>
  \<open>json.loads\<close> returns any JSON value, and \<open>_load_db\<close> returns it unchecked.
  A number is kept as its text. A store is the object of its keys with the array of
  its tags as the value of each.
\<close>

datatype json =
    JNull | JBool bool | JNumber string | JString string
  | JArray "json list" | JObject "(string \<times> json) list"

definition store_json :: "store \<Rightarrow> json" where
  "store_json db = JObject (map (\<lambda>(key, tags). (key, JArray (map JString tags))) db)"

text \<open>
  The documents that hold a store are parsed here, character by character: an object
  whose values are arrays of strings, with JSON whitespace between the tokens. In a
  string a control character is an error, and the escapes are those of JSON;
  \<open>\uXXXX\<close> is read for code points below 256, the ones the model has. A key that
  occurs twice keeps its first place and its last value, as in a dict.
\<close>

datatype strst = Plain | Esc | Uni "nat list"

datatype str_res = Continue strst string | Closed string | Bad

definition hexval :: "char \<Rightarrow> nat option" where
  "hexval c =
     (let n = (of_char c :: nat)
      in if 48 \<le> n \<and> n \<le> 57 then Some (n - 48)
         else if 97 \<le> n \<and> n \<le> 102 then Some (n - 87)
         else if 65 \<le> n \<and> n \<le> 70 then Some (n - 55)
         else None)"

fun str_step :: "strst \<Rightarrow> string \<Rightarrow> char \<Rightarrow> str_res" where
  "str_step Plain buf c =
     (let n = (of_char c :: nat)
      in if n = 0x22 then Closed buf
         else if n = 0x5C then Continue Esc buf
         else if n < 0x20 then Bad
         else Continue Plain (buf @ [c]))"
| "str_step Esc buf c =
     (let n = (of_char c :: nat)
      in if n = 0x22 then Continue Plain (buf @ [CHR 0x22])
         else if n = 0x5C then Continue Plain (buf @ [CHR 0x5C])
         else if n = 0x2F then Continue Plain (buf @ [CHR 0x2F])
         else if n = 0x62 then Continue Plain (buf @ [CHR 0x08])
         else if n = 0x66 then Continue Plain (buf @ [CHR 0x0C])
         else if n = 0x6E then Continue Plain (buf @ [CHR 0x0A])
         else if n = 0x72 then Continue Plain (buf @ [CHR 0x0D])
         else if n = 0x74 then Continue Plain (buf @ [CHR 0x09])
         else if n = 0x75 then Continue (Uni []) buf
         else Bad)"
| "str_step (Uni ds) buf c =
     (case hexval c of
        None \<Rightarrow> Bad
      | Some v \<Rightarrow>
          if length ds < 3 then Continue (Uni (ds @ [v])) buf
          else (let code = foldl (\<lambda>a d. a * 16 + d) 0 (ds @ [v])
                in if code < 256 then Continue Plain (buf @ [char_of code]) else Bad))"

text \<open>Several characters of a string, one after the other.\<close>

fun str_feed :: "str_res \<Rightarrow> string \<Rightarrow> str_res" where
  "str_feed r [] = r"
| "str_feed r (c # cs) =
     (case r of
        Continue ss buf \<Rightarrow> str_feed (str_step ss buf c) cs
      | _ \<Rightarrow> Bad)"

definition json_ws :: "char \<Rightarrow> bool" where
  "json_ws c = (let n = (of_char c :: nat) in n = 0x20 \<or> n = 0x09 \<or> n = 0x0A \<or> n = 0x0D)"

datatype pstate =
    PStart
  | PObjOpen
  | PKey store strst string
  | PAfterKey store string
  | PAfterColon store string
  | PArrOpen store string
  | PTag store string "string list" strst string
  | PAfterTag store string "string list"
  | PArrNext store string "string list"
  | PAfterArr store
  | PObjNext store
  | PDone store
  | PFail

fun pstep :: "pstate \<Rightarrow> char \<Rightarrow> pstate" where
  "pstep PStart c =
     (if json_ws c then PStart else if c = CHR ''{'' then PObjOpen else PFail)"
| "pstep PObjOpen c =
     (if json_ws c then PObjOpen
      else if c = CHR 0x22 then PKey [] Plain []
      else if c = CHR ''}'' then PDone []
      else PFail)"
| "pstep (PKey db ss buf) c =
     (case str_step ss buf c of
        Continue ss' buf' \<Rightarrow> PKey db ss' buf'
      | Closed key \<Rightarrow> PAfterKey db key
      | Bad \<Rightarrow> PFail)"
| "pstep (PAfterKey db key) c =
     (if json_ws c then PAfterKey db key
      else if c = CHR '':'' then PAfterColon db key
      else PFail)"
| "pstep (PAfterColon db key) c =
     (if json_ws c then PAfterColon db key
      else if c = CHR ''['' then PArrOpen db key
      else PFail)"
| "pstep (PArrOpen db key) c =
     (if json_ws c then PArrOpen db key
      else if c = CHR 0x22 then PTag db key [] Plain []
      else if c = CHR '']'' then PAfterArr (AList.update key [] db)
      else PFail)"
| "pstep (PTag db key tags ss buf) c =
     (case str_step ss buf c of
        Continue ss' buf' \<Rightarrow> PTag db key tags ss' buf'
      | Closed tag \<Rightarrow> PAfterTag db key (tags @ [tag])
      | Bad \<Rightarrow> PFail)"
| "pstep (PAfterTag db key tags) c =
     (if json_ws c then PAfterTag db key tags
      else if c = CHR '','' then PArrNext db key tags
      else if c = CHR '']'' then PAfterArr (AList.update key tags db)
      else PFail)"
| "pstep (PArrNext db key tags) c =
     (if json_ws c then PArrNext db key tags
      else if c = CHR 0x22 then PTag db key tags Plain []
      else PFail)"
| "pstep (PAfterArr db) c =
     (if json_ws c then PAfterArr db
      else if c = CHR '','' then PObjNext db
      else if c = CHR ''}'' then PDone db
      else PFail)"
| "pstep (PObjNext db) c =
     (if json_ws c then PObjNext db
      else if c = CHR 0x22 then PKey db Plain []
      else PFail)"
| "pstep (PDone db) c = (if json_ws c then PDone db else PFail)"
| "pstep PFail c = PFail"

definition parse_store :: "string \<Rightarrow> store option" where
  "parse_store s = (case foldl pstep PStart s of PDone db \<Rightarrow> Some db | _ \<Rightarrow> None)"

text \<open>
  \<open>json.loads\<close>: on a document that holds a store it returns the store. What it
  does on any other document is the parameter \<open>other\<close>: the value it returns (of
  any shape), or the exception it raises (\<open>JSONDecodeError\<close>, or another one such
  as \<open>RecursionError\<close>).
\<close>

definition json_loads :: "(string \<Rightarrow> exn + json) \<Rightarrow> string \<Rightarrow> exn + json" where
  "json_loads other content =
     (case parse_store content of
        Some db \<Rightarrow> Inr (store_json db)
      | None \<Rightarrow> other content)"

text \<open>
  \<open>_load_db\<close>. \<open>open_raises\<close> is the exception that opening, reading or
  decoding the file raises, if any (\<open>UnicodeDecodeError\<close> for a file that is not
  UTF-8), and \<open>rename_fails\<close> tells whether the \<open>os.rename\<close> to the backup name
  raises \<open>OSError\<close>. Only the three exceptions of the \<open>except\<close> clause are
  handled; any other one is raised to the caller.
\<close>

record load_env =
  open_raises :: "exn option"
  rename_fails :: bool

definition load_handler :: "load_env \<Rightarrow> string \<Rightarrow> exn \<Rightarrow> disk \<Rightarrow> (exn + json) \<times> disk" where
  "load_handler le content e d =
     (if e = JSONDecodeError \<or> e = FileNotFoundError \<or> e = PermissionError
      then (Inr (JObject []),
            if db_file d \<noteq> None \<and> 0 < length content \<and> \<not> rename_fails le
            then d\<lparr>db_file := None, backup_file := Some content\<rparr>
            else d)
      else (Inl e, d))"

definition load_db ::
  "(string \<Rightarrow> exn + json) \<Rightarrow> load_env \<Rightarrow> disk \<Rightarrow> (exn + json) \<times> disk" where
  "load_db other le d =
     (case db_file d of
        None \<Rightarrow> (Inr (JObject []), d)
      | Some content \<Rightarrow>
          (case open_raises le of
             Some e \<Rightarrow> load_handler le content e d
           | None \<Rightarrow>
               if py_strip content = [] then (Inr (JObject []), d)
               else (case json_loads other content of
                       Inr v \<Rightarrow> (Inr v, d)
                     | Inl e \<Rightarrow> load_handler le content e d)))"

section \<open>The save worker\<close>

text \<open>
  \<open>_save_worker\<close> runs beside the thread that calls the manager. The model runs
  both on one clock, in milliseconds. The calls of the foreground thread are a
  schedule: each call with the time at which it is made, in order. A call, a wake-up
  and a write take no time; only \<open>time.sleep\<close> lets the clock advance, and the
  calls scheduled up to the end of a sleep are made before the worker goes on.
  \<open>writes\<close> lists every call of \<open>_save_db_with_retry\<close>: its time and the store it
  was given. \<open>raises n\<close> tells whether the call number \<open>n\<close> raises; the worker
  catches that and goes on.
\<close>

datatype call = AddTags string "string list" | RemoveTag string string

fun run_call :: "call \<Rightarrow> manager \<Rightarrow> manager" where
  "run_call (AddTags filepath tags) m = add_tags m filepath tags"
| "run_call (RemoveTag filepath tag) m = remove_tag m filepath tag"

fun run_until :: "int \<Rightarrow> (int \<times> call) list \<Rightarrow> manager \<Rightarrow> manager \<times> (int \<times> call) list" where
  "run_until t [] m = (m, [])"
| "run_until t ((u, c) # sched) m =
     (if u \<le> t then run_until t sched (run_call c m) else (m, (u, c) # sched))"

record worker =
  mgr :: manager
  last_save :: int
  clock :: int
  writes :: "(int \<times> store) list"

text \<open>
  One round of the loop of \<open>_save_worker\<close> when the queue holds an item: take the
  item, sleep out the rest of the second since the last save, and, if changes are
  pending, save, clear the flag and note the time.
\<close>

definition worker_iteration ::
  "(nat \<Rightarrow> bool) \<Rightarrow> (int \<times> call) list \<Rightarrow> worker \<Rightarrow> (int \<times> call) list \<times> worker" where
  "worker_iteration raises sched w =
     (let m1 = (mgr w)\<lparr>save_queue := save_queue (mgr w) - 1\<rparr>;
          time_since_last_save = clock w - last_save w;
          t1 = (if time_since_last_save < 1000
                then clock w + (1000 - time_since_last_save) else clock w);
          fg = run_until t1 sched m1;
          m2 = fst fg;
          w2 = w\<lparr>mgr := m2, clock := t1\<rparr>
      in (snd fg,
          if pending_changes m2
          then (if raises (length (writes w))
                then w2\<lparr>writes := writes w @ [(t1, tags_db m2)]\<rparr>
                else w2\<lparr>mgr := m2\<lparr>pending_changes := False\<rparr>,
                        last_save := t1,
                        writes := writes w @ [(t1, tags_db m2)]\<rparr>)
          else w2))"

lemma save_queue_run_call: "save_queue (run_call c m) \<le> Suc (save_queue m)"
  by (cases c)
     (simp_all add: add_tags_def remove_tag_def queue_save_def Let_def split: option.splits)

lemma run_until_measure:
  "2 * length (snd (run_until t sched m)) + save_queue (fst (run_until t sched m))
     \<le> 2 * length sched + save_queue m"
proof (induction sched arbitrary: m)
  case Nil
  then show ?case by simp
next
  case (Cons e sched)
  obtain u c where e: "e = (u, c)" by (cases e)
  show ?case
    using Cons.IH[of "run_call c m"] save_queue_run_call[of c m] by (simp add: e)
qed

lemma worker_iteration_measure:
  assumes "save_queue (mgr w) \<noteq> 0"
  shows "2 * length (fst (worker_iteration raises sched w))
           + save_queue (mgr (snd (worker_iteration raises sched w)))
         < 2 * length sched + save_queue (mgr w)"
proof -
  define t1 where "t1 = (if clock w - last_save w < 1000
                          then clock w + (1000 - (clock w - last_save w)) else clock w)"
  define m1 where "m1 = (mgr w)\<lparr>save_queue := save_queue (mgr w) - 1\<rparr>"
  have a: "fst (worker_iteration raises sched w) = snd (run_until t1 sched m1)"
    by (simp add: worker_iteration_def Let_def t1_def m1_def)
  have b: "save_queue (mgr (snd (worker_iteration raises sched w)))
             = save_queue (fst (run_until t1 sched m1))"
    by (simp add: worker_iteration_def Let_def t1_def m1_def)
  from run_until_measure[of t1 sched m1] assms show ?thesis
    unfolding a b by (simp add: m1_def)
qed

text \<open>
  The worker and the schedule together, until the schedule is used up and the queue
  is empty (from then on the worker only times out on the empty queue). With an empty
  queue the worker waits in \<open>get\<close> and wakes at the next call.
\<close>

function run_worker :: "(nat \<Rightarrow> bool) \<Rightarrow> (int \<times> call) list \<Rightarrow> worker \<Rightarrow> worker" where
  "run_worker raises sched w =
     (if save_queue (mgr w) = 0
      then (case sched of
              [] \<Rightarrow> w
            | e # rest \<Rightarrow>
                run_worker raises rest
                  (w\<lparr>mgr := run_call (snd e) (mgr w), clock := max (clock w) (fst e)\<rparr>))
      else run_worker raises (fst (worker_iteration raises sched w))
             (snd (worker_iteration raises sched w)))"
  by pat_completeness auto
termination
proof (relation "measure (\<lambda>(raises, sched, w). 2 * length sched + save_queue (mgr w))")
  show "wf (measure (\<lambda>(raises, sched, w). 2 * length sched + save_queue (mgr w)))"
    by simp
next
  fix raises :: "nat \<Rightarrow> bool" and sched :: "(int \<times> call) list" and w :: worker and e rest
  assume "save_queue (mgr w) = 0" and "sched = e # rest"
  then show "((raises, rest, w\<lparr>mgr := run_call (snd e) (mgr w), clock := max (clock w) (fst e)\<rparr>),
              (raises, sched, w))
             \<in> measure (\<lambda>(raises, sched, w). 2 * length sched + save_queue (mgr w))"
    using save_queue_run_call[of "snd e" "mgr w"] by simp
next
  fix raises :: "nat \<Rightarrow> bool" and sched :: "(int \<times> call) list" and w :: worker
  assume "save_queue (mgr w) \<noteq> 0"
  then show "((raises, fst (worker_iteration raises sched w),
               snd (worker_iteration raises sched w)), (raises, sched, w))
             \<in> measure (\<lambda>(raises, sched, w). 2 * length sched + save_queue (mgr w))"
    using worker_iteration_measure[of w raises sched] by (simp add: case_prod_unfold)
qed

text \<open>A call that reaches \<open>queue_save\<close>.\<close>

definition calls_queue_save :: "call \<Rightarrow> manager \<Rightarrow> bool" where
  "calls_queue_save c m =
     (case c of
        AddTags filepath tags \<Rightarrow> True
      | RemoveTag filepath tag \<Rightarrow> tag \<in> set (get_tags m filepath))"

section \<open>Properties\<close>


subsection \<open>Strings\<close>

lemma isspace_lower_char: "isspace (lower_char c) = isspace c"
  unfolding isspace_def lower_char_def Let_def
  by (auto simp: of_char_of)

lemma lower_char_idem: "lower_char (lower_char c) = lower_char c"
  unfolding lower_char_def Let_def
  by (auto simp: of_char_of)

lemma py_lower_idem: "py_lower (py_lower s) = py_lower s"
  by (simp add: py_lower_def lower_char_idem)

lemma py_strip_lower: "py_strip (py_lower s) = py_lower (py_strip s)"
  by (simp add: py_strip_def py_lower_def dropWhile_map rev_map comp_def isspace_lower_char)

lemma dropWhile_all_iff: "(\<forall>x\<in>set (dropWhile P xs). P x) \<longleftrightarrow> (\<forall>x\<in>set xs. P x)"
proof
  assume a: "\<forall>x\<in>set (dropWhile P xs). P x"
  have "dropWhile P xs = []"
  proof (rule ccontr)
    assume "dropWhile P xs \<noteq> []"
    then have "\<not> P (hd (dropWhile P xs))" "hd (dropWhile P xs) \<in> set (dropWhile P xs)"
      by (simp_all add: hd_dropWhile)
    with a show False by blast
  qed
  then show "\<forall>x\<in>set xs. P x" by simp
next
  assume "\<forall>x\<in>set xs. P x"
  then show "\<forall>x\<in>set (dropWhile P xs). P x" by (meson set_dropWhileD)
qed

lemma py_strip_Nil_iff: "py_strip s = [] \<longleftrightarrow> (\<forall>c\<in>set s. isspace c)"
  by (simp add: py_strip_def dropWhile_all_iff)

lemma dropWhile_py_strip: "dropWhile isspace (py_strip s) = py_strip s"
proof (cases "py_strip s = []")
  case True
  then show ?thesis by simp
next
  case False
  define A where "A = dropWhile isspace s"
  have s: "py_strip s = rev (dropWhile isspace (rev A))"
    by (simp add: py_strip_def A_def)
  have ne: "A \<noteq> []"
  proof
    assume "A = []"
    with s have "py_strip s = []" by simp
    with False show False by contradiction
  qed
  have "rev A = takeWhile isspace (rev A) @ dropWhile isspace (rev A)" by simp
  then have "A = py_strip s @ rev (takeWhile isspace (rev A))"
    unfolding s by (metis rev_append rev_rev_ident)
  with False have "hd (py_strip s) = hd A" by (metis hd_append2)
  moreover have "\<not> isspace (hd A)"
    using ne unfolding A_def by (simp add: hd_dropWhile)
  ultimately show ?thesis using False by (cases "py_strip s") auto
qed

lemma py_strip_idem: "py_strip (py_strip s) = py_strip s"
proof -
  have "py_strip (py_strip s) = rev (dropWhile isspace (rev (py_strip s)))"
    by (simp add: py_strip_def[of "py_strip s"] dropWhile_py_strip)
  also have "\<dots> = py_strip s" by (simp add: py_strip_def)
  finally show ?thesis .
qed

lemma norm_tag_commute: "norm_tag t = py_strip (py_lower t)"
  by (simp add: norm_tag_def py_strip_lower)

lemma norm_tag_idem: "norm_tag (norm_tag t) = norm_tag t"
  by (simp add: norm_tag_def py_strip_lower py_strip_idem py_lower_idem)

lemma tag_ok_norm_tag: "norm_tag t \<noteq> [] \<Longrightarrow> tag_ok (norm_tag t)"
  by (simp add: tag_ok_def norm_tag_def py_lower_idem py_strip_lower py_strip_idem)

lemma tag_ok_fixed: "tag_ok t \<Longrightarrow> norm_tag t = t"
  by (simp add: tag_ok_def norm_tag_def)

subsection \<open>The loop over the tags\<close>

lemma set_extend_tags: "set (extend_tags cur tags) = set cur \<union> (norm_tag ` set tags - {[]})"
  by (induction tags arbitrary: cur) (auto simp: Let_def)

lemma distinct_extend_tags: "distinct cur \<Longrightarrow> distinct (extend_tags cur tags)"
  by (induction tags arbitrary: cur) (auto simp: Let_def)

lemma extend_tags_absorb: "norm_tag ` set tags - {[]} \<subseteq> set cur \<Longrightarrow> extend_tags cur tags = cur"
  by (induction tags arbitrary: cur) (auto simp: Let_def)

lemma extend_tags_idem: "extend_tags (extend_tags cur tags) tags = extend_tags cur tags"
  by (rule extend_tags_absorb) (simp add: set_extend_tags)

lemma tag_ok_extend_tags: "list_all tag_ok cur \<Longrightarrow> list_all tag_ok (extend_tags cur tags)"
  by (induction tags arbitrary: cur) (auto simp: Let_def tag_ok_norm_tag)

lemma extend_tags_nonempty:
  "cur \<noteq> [] \<or> (\<exists>t\<in>set tags. norm_tag t \<noteq> []) \<Longrightarrow> extend_tags cur tags \<noteq> []"
proof -
  assume a: "cur \<noteq> [] \<or> (\<exists>t\<in>set tags. norm_tag t \<noteq> [])"
  have "set (extend_tags cur tags) \<noteq> {}"
    using a unfolding set_extend_tags by (cases cur) auto
  then show ?thesis by auto
qed

subsection \<open>Dict operations\<close>

lemma db_get_tag_key: "db_get (tag_key tags db key) key = extend_tags (db_get db key) tags"
  by (simp add: tag_key_def db_get_def update_conv')

lemma db_get_tag_key_other: "k \<noteq> key \<Longrightarrow> db_get (tag_key tags db key) k = db_get db k"
  by (simp add: tag_key_def db_get_def update_conv')

lemma tag_key_idem: "tag_key tags (tag_key tags db key) key = tag_key tags db key"
proof -
  have "map_of (tag_key tags db key) key = Some (extend_tags (db_get db key) tags)"
    by (simp add: tag_key_def update_conv')
  then show ?thesis
    unfolding tag_key_def[of tags "tag_key tags db key"] db_get_tag_key extend_tags_idem
    by (rule update_triv)
qed

lemma get_tags_add_tags: "get_tags (add_tags m p tags) p = extend_tags (get_tags m p) tags"
  by (simp add: get_tags_def add_tags_def queue_save_def db_get_tag_key)

text \<open>
  C5. After \<open>add_tags(p, T)\<close>, \<open>get_tags(p)\<close> holds exactly the tags that
  were there before together with the non-empty normalised elements of \<open>T\<close>; it has
  no duplicates if it had none before; adding the same list a second time changes neither
  the tags of \<open>p\<close> nor the store.
\<close>

theorem add_tags_then_get_tags:
  "set (get_tags (add_tags m p tags) p) = set (get_tags m p) \<union> (norm_tag ` set tags - {[]})
   \<and> (distinct (get_tags m p) \<longrightarrow> distinct (get_tags (add_tags m p tags) p))
   \<and> get_tags (add_tags (add_tags m p tags) p tags) p = get_tags (add_tags m p tags) p
   \<and> tags_db (add_tags (add_tags m p tags) p tags) = tags_db (add_tags m p tags)"
proof -
  have "tags_db (add_tags (add_tags m p tags) p tags) = tags_db (add_tags m p tags)"
    by (simp add: add_tags_def queue_save_def tag_key_idem)
  then show ?thesis
    by (simp add: get_tags_add_tags set_extend_tags distinct_extend_tags extend_tags_idem)
qed

theorem add_tags_then_get_tags_witness:
  "distinct (get_tags \<lparr>tags_db = [(''a'', [''x''])], pending_changes = False, save_queue = 0\<rparr> ''./a'')
   \<and> distinct (get_tags (add_tags \<lparr>tags_db = [(''a'', [''x''])], pending_changes = False, save_queue = 0\<rparr>
                 ''./a'' ['' Y '', ''X'', ''  '']) ''./a'')
   \<and> get_tags (add_tags \<lparr>tags_db = [(''a'', [''x''])], pending_changes = False, save_queue = 0\<rparr>
                 ''./a'' ['' Y '', ''X'', ''  '']) ''./a'' = [''x'', ''y'']"
proof -
  have h: "distinct (get_tags \<lparr>tags_db = [(''a'', [''x''])], pending_changes = False, save_queue = 0\<rparr> ''./a'')"
    by code_simp
  have v: "get_tags (add_tags \<lparr>tags_db = [(''a'', [''x''])], pending_changes = False, save_queue = 0\<rparr>
                 ''./a'' ['' Y '', ''X'', ''  '']) ''./a'' = [''x'', ''y'']"
    by code_simp
  from add_tags_then_get_tags[of "\<lparr>tags_db = [(''a'', [''x''])], pending_changes = False, save_queue = 0\<rparr>"
       "''./a''" "['' Y '', ''X'', ''  '']"] h v
  show ?thesis by blast
qed

subsection \<open>Removing a tag that is not stored\<close>

text \<open>
  C10. \<open>remove_tag(p, t)\<close> compares \<open>t\<close> as it is with the stored tags of
  \<open>p\<close>. If \<open>t\<close> is not among them (also when it differs from a stored tag
  only by letter case or by surrounding whitespace), the manager is unchanged: the
  store, the pending flag and the save queue.
\<close>
theorem remove_tag_absent_unchanged:
  "tag \<notin> set (get_tags m p) \<Longrightarrow> remove_tag m p tag = m"
  by (simp add: remove_tag_def get_tags_def db_get_def Let_def split: option.splits)

theorem remove_tag_absent_unchanged_witness:
  "''X'' \<notin> set (get_tags \<lparr>tags_db = [(''a'', [''x''])], pending_changes = False, save_queue = 0\<rparr> ''a'')
   \<and> '' x'' \<notin> set (get_tags \<lparr>tags_db = [(''a'', [''x''])], pending_changes = False, save_queue = 0\<rparr> ''a'')
   \<and> remove_tag \<lparr>tags_db = [(''a'', [''x''])], pending_changes = False, save_queue = 0\<rparr> ''a'' ''X''
       = \<lparr>tags_db = [(''a'', [''x''])], pending_changes = False, save_queue = 0\<rparr>
   \<and> remove_tag \<lparr>tags_db = [(''a'', [''x''])], pending_changes = False, save_queue = 0\<rparr> ''a'' '' x''
       = \<lparr>tags_db = [(''a'', [''x''])], pending_changes = False, save_queue = 0\<rparr>"
proof -
  have h1: "''X'' \<notin> set (get_tags \<lparr>tags_db = [(''a'', [''x''])], pending_changes = False, save_queue = 0\<rparr> ''a'')"
    by code_simp
  have h2: "'' x'' \<notin> set (get_tags \<lparr>tags_db = [(''a'', [''x''])], pending_changes = False, save_queue = 0\<rparr> ''a'')"
    by code_simp
  from h1 h2 remove_tag_absent_unchanged[OF h1] remove_tag_absent_unchanged[OF h2]
  show ?thesis by blast
qed

subsection \<open>Search\<close>

lemma search_by_tags_set:
  "set (search_by_tags m q) =
     {p. \<exists>tags. (p, tags) \<in> set (tags_db m) \<and> (\<forall>t\<in>set q. norm_tag t \<in> set tags)}"
  by (force simp: search_by_tags_def list_all_iff)

lemma distinct_map_fst_filter: "distinct (map fst xs) \<Longrightarrow> distinct (map fst (filter P xs))"
  by (induction xs) (auto simp: image_iff)

text \<open>
  C9. On a dict (every key once), \<open>search_by_tags(Q)\<close> returns exactly the keys
  whose list holds every normalised element of \<open>Q\<close>, each key once; the empty query
  returns every key; a query with an element that no stored list holds returns nothing.
\<close>

theorem search_by_tags_superset:
  "distinct (map fst (tags_db m)) \<Longrightarrow>
   set (search_by_tags m q) =
     {p. \<exists>tags. map_of (tags_db m) p = Some tags \<and> (\<forall>t\<in>set q. norm_tag t \<in> set tags)}
   \<and> distinct (search_by_tags m q)
   \<and> search_by_tags m [] = map fst (tags_db m)
   \<and> ((\<exists>t\<in>set q. \<forall>p\<in>set (map fst (tags_db m)). norm_tag t \<notin> set (db_get (tags_db m) p))
        \<longrightarrow> search_by_tags m q = [])"
proof -
  assume d: "distinct (map fst (tags_db m))"
  have a: "set (search_by_tags m q) =
     {p. \<exists>tags. map_of (tags_db m) p = Some tags \<and> (\<forall>t\<in>set q. norm_tag t \<in> set tags)}"
    unfolding search_by_tags_set using d by auto
  have b: "distinct (search_by_tags m q)"
    using d by (simp add: search_by_tags_def distinct_map_fst_filter)
  have c: "search_by_tags m [] = map fst (tags_db m)"
    by (simp add: search_by_tags_def)
  have e: "search_by_tags m q = []"
    if "\<exists>t\<in>set q. \<forall>p\<in>set (map fst (tags_db m)). norm_tag t \<notin> set (db_get (tags_db m) p)"
  proof -
    from that obtain t where t: "t \<in> set q"
      and n: "\<forall>p\<in>set (map fst (tags_db m)). norm_tag t \<notin> set (db_get (tags_db m) p)" by blast
    have "set (search_by_tags m q) = {}"
    proof (rule ccontr)
      assume "set (search_by_tags m q) \<noteq> {}"
      then obtain p tags where pt: "map_of (tags_db m) p = Some tags" "(\<forall>t\<in>set q. norm_tag t \<in> set tags)"
        unfolding a by blast
      then have "p \<in> set (map fst (tags_db m))" by (metis map_of_eq_None_iff option.distinct(1) set_map)
      with n have "norm_tag t \<notin> set (db_get (tags_db m) p)" by blast
      with pt t show False by (auto simp: db_get_def)
    qed
    then show ?thesis by simp
  qed
  from a b c e show ?thesis by blast
qed

theorem search_by_tags_superset_witness:
  "distinct (map fst (tags_db \<lparr>tags_db = [(''a'', [''x'', ''y'']), (''b'', [''x'']), (''c'', [''y'', ''z''])],
                                pending_changes = False, save_queue = 0\<rparr>))
   \<and> search_by_tags \<lparr>tags_db = [(''a'', [''x'', ''y'']), (''b'', [''x'']), (''c'', [''y'', ''z''])],
                       pending_changes = False, save_queue = 0\<rparr> [''X ''] = [''a'', ''b'']
   \<and> distinct (search_by_tags \<lparr>tags_db = [(''a'', [''x'', ''y'']), (''b'', [''x'']), (''c'', [''y'', ''z''])],
                       pending_changes = False, save_queue = 0\<rparr> [''X ''])"
proof -
  have h: "distinct (map fst (tags_db \<lparr>tags_db = [(''a'', [''x'', ''y'']), (''b'', [''x'']), (''c'', [''y'', ''z''])],
                                pending_changes = False, save_queue = 0\<rparr>))"
    by simp
  have v: "search_by_tags \<lparr>tags_db = [(''a'', [''x'', ''y'']), (''b'', [''x'']), (''c'', [''y'', ''z''])],
                       pending_changes = False, save_queue = 0\<rparr> [''X ''] = [''a'', ''b'']"
    by code_simp
  from search_by_tags_superset[OF h, of "[''X '']"] h v show ?thesis by blast
qed

lemma search_examples:
  "search_by_tags \<lparr>tags_db = [(''a'', [''x'', ''y'']), (''b'', [''x'']), (''c'', [''y'', ''z''])],
                       pending_changes = False, save_queue = 0\<rparr> [''x''] = [''a'', ''b'']"
  "search_by_tags \<lparr>tags_db = [(''a'', [''x'', ''y'']), (''b'', [''x'']), (''c'', [''y'', ''z''])],
                       pending_changes = False, save_queue = 0\<rparr> [''x'', ''y''] = [''a'']"
  "search_by_tags \<lparr>tags_db = [(''a'', [''x'', ''y'']), (''b'', [''x'']), (''c'', [''y'', ''z''])],
                       pending_changes = False, save_queue = 0\<rparr> [''q''] = []"
  by code_simp+

subsection \<open>The batches of a directory\<close>

lemma dir_batch_fold:
  "foldl (dir_batch tags files tot bs cb) (m, calls) (map (\<lambda>k. k * bs) [0..<n]) =
     (m\<lparr>tags_db := foldl (tag_key tags) (tags_db m) (take (n * bs) files),
        pending_changes := (pending_changes m \<or> 0 < n),
        save_queue := save_queue m + n\<rparr>,
      calls @ (if cb then map (\<lambda>k. (min (k * bs + bs) tot, tot)) [0..<n] else []))"
proof (induction n)
  case 0
  then show ?case by simp
next
  case (Suc n)
  have "take (n * bs + bs) files = take (n * bs) files @ take bs (drop (n * bs) files)"
    by (simp only: take_add)
  then have t: "foldl (tag_key tags) (foldl (tag_key tags) (tags_db m) (take (n * bs) files))
                  (take bs (drop (n * bs) files))
                = foldl (tag_key tags) (tags_db m) (take (Suc n * bs) files)"
    by (simp add: add.commute)
  have "foldl (dir_batch tags files tot bs cb) (m, calls) (map (\<lambda>k. k * bs) [0..<Suc n])
        = dir_batch tags files tot bs cb
            (foldl (dir_batch tags files tot bs cb) (m, calls) (map (\<lambda>k. k * bs) [0..<n])) (n * bs)"
    by simp
  also have "\<dots> = (m\<lparr>tags_db := foldl (tag_key tags) (tags_db m) (take (Suc n * bs) files),
        pending_changes := (pending_changes m \<or> 0 < Suc n),
        save_queue := save_queue m + Suc n\<rparr>,
      calls @ (if cb then map (\<lambda>k. (min (k * bs + bs) tot, tot)) [0..<Suc n] else []))"
    unfolding Suc by (simp add: dir_batch_def queue_save_def Let_def t del: mult_Suc)
  finally show ?case .
qed

lemma py_range_from_0: "py_range 0 stop step = map (\<lambda>k. k * step) [0..<(stop + step - 1) div step]"
  by (simp add: py_range_def)

lemma add_tags_to_directory_eq:
  "add_tags_to_directory m directory tags cb tree =
     (length (walk_files directory tree),
      m\<lparr>tags_db := foldl (tag_key tags) (tags_db m) (walk_files directory tree),
        pending_changes := (pending_changes m \<or> 0 < length (walk_files directory tree)),
        save_queue := save_queue m + (length (walk_files directory tree) + 99) div 100\<rparr>,
      if cb then map (\<lambda>k. (min (k * 100 + 100) (length (walk_files directory tree)),
                               length (walk_files directory tree)))
                     [0..<(length (walk_files directory tree) + 99) div 100]
      else [])"
proof -
  define files where "files = walk_files directory tree"
  define n where "n = (length files + 99) div 100"
  have "length files \<le> n * 100" unfolding n_def by arith
  then have tk: "take (n * 100) files = files" by simp
  have pos: "0 < n \<longleftrightarrow> 0 < length files" unfolding n_def by arith
  have r: "py_range 0 (length files) 100 = map (\<lambda>k. k * 100) [0..<n]"
    unfolding py_range_from_0 n_def by (simp add: add.commute)
  have "add_tags_to_directory m directory tags cb tree =
     (length files,
      fst (foldl (dir_batch tags files (length files) 100 cb) (m, []) (map (\<lambda>k. k * 100) [0..<n])),
      snd (foldl (dir_batch tags files (length files) 100 cb) (m, []) (map (\<lambda>k. k * 100) [0..<n])))"
    unfolding add_tags_to_directory_def Let_def files_def[symmetric] r ..
  also have "\<dots> = (length files,
      m\<lparr>tags_db := foldl (tag_key tags) (tags_db m) files,
        pending_changes := (pending_changes m \<or> 0 < length files),
        save_queue := save_queue m + n\<rparr>,
      if cb then map (\<lambda>k. (min (k * 100 + 100) (length files), length files)) [0..<n] else [])"
    unfolding dir_batch_fold tk pos by simp
  finally show ?thesis unfolding files_def n_def .
qed

subsection \<open>The store invariant\<close>

lemma list_all_update:
  "list_all P db \<Longrightarrow> P (k, v) \<Longrightarrow> list_all P (AList.update k v db)"
  by (induction db) auto

lemma list_all_delete: "list_all P db \<Longrightarrow> list_all P (AList.delete k db)"
  by (induction db) auto

lemma store_inv_entry:
  "store_inv db \<Longrightarrow> map_of db k = Some l \<Longrightarrow> l \<noteq> [] \<and> distinct l \<and> list_all tag_ok l"
  by (auto simp: store_inv_def list_all_iff dest!: map_of_SomeD)

lemma store_inv_db_get:
  "store_inv db \<Longrightarrow> distinct (db_get db k) \<and> list_all tag_ok (db_get db k)"
  by (cases "map_of db k") (auto simp: db_get_def dest: store_inv_entry)

lemma store_inv_db_get_nonempty:
  "store_inv db \<Longrightarrow> k \<in> fst ` set db \<Longrightarrow> db_get db k \<noteq> []"
proof -
  assume inv: "store_inv db" and k: "k \<in> fst ` set db"
  from k obtain l where "map_of db k = Some l"
    by (metis map_of_eq_None_iff not_Some_eq)
  with inv show ?thesis by (auto simp: db_get_def dest: store_inv_entry)
qed

lemma store_inv_tag_key:
  assumes "store_inv db" and "k \<in> fst ` set db \<or> (\<exists>t\<in>set tags. norm_tag t \<noteq> [])"
  shows "store_inv (tag_key tags db k)"
proof -
  let ?l = "extend_tags (db_get db k) tags"
  have "?l \<noteq> []"
    using assms by (intro extend_tags_nonempty) (auto dest: store_inv_db_get_nonempty)
  moreover have "distinct ?l" "list_all tag_ok ?l"
    using assms(1) by (simp_all add: store_inv_db_get distinct_extend_tags tag_ok_extend_tags)
  ultimately show ?thesis
    using assms(1) unfolding store_inv_def tag_key_def by (intro list_all_update) auto
qed

lemma keys_tag_key: "fst ` set (tag_key tags db k) = insert k (fst ` set db)"
  by (simp add: tag_key_def dom_update)

lemma store_inv_foldl_tag_key:
  "store_inv db \<Longrightarrow> set ks \<subseteq> fst ` set db \<or> (\<exists>t\<in>set tags. norm_tag t \<noteq> []) \<Longrightarrow>
   store_inv (foldl (tag_key tags) db ks)"
proof (induction ks arbitrary: db)
  case Nil
  then show ?case by simp
next
  case (Cons k ks)
  have "store_inv (tag_key tags db k)"
    using Cons.prems by (intro store_inv_tag_key) auto
  moreover have "set ks \<subseteq> fst ` set (tag_key tags db k) \<or> (\<exists>t\<in>set tags. norm_tag t \<noteq> [])"
    using Cons.prems(2) by (auto simp: keys_tag_key)
  ultimately show ?case using Cons.IH by simp
qed

lemma distinct_keys_tag_key:
  "distinct (map fst db) \<Longrightarrow> distinct (map fst (tag_key tags db k))"
  by (simp add: tag_key_def distinct_update)

lemma distinct_keys_foldl_tag_key:
  "distinct (map fst db) \<Longrightarrow> distinct (map fst (foldl (tag_key tags) db ks))"
  by (induction ks arbitrary: db) (simp_all add: distinct_keys_tag_key)

lemma store_inv_remove_tag: "store_inv (tags_db m) \<Longrightarrow> store_inv (tags_db (remove_tag m p tag))"
proof -
  assume inv: "store_inv (tags_db m)"
  show ?thesis
  proof (cases "map_of (tags_db m) (py_path p)")
    case None
    then show ?thesis using inv by (simp add: remove_tag_def)
  next
    case (Some l)
    from store_inv_entry[OF inv Some] have l: "distinct l" "list_all tag_ok l" by simp_all
    have r: "distinct (remove1 tag l)" "list_all tag_ok (remove1 tag l)"
      using l by (auto simp: list_all_iff dest: notin_set_remove1)
    show ?thesis
    proof (cases "tag \<in> set l")
      case False
      then show ?thesis using inv Some by (simp add: remove_tag_def)
    next
      case True
      show ?thesis
      proof (cases "remove1 tag l = []")
        case True
        with \<open>tag \<in> set l\<close> Some inv show ?thesis
          by (simp add: remove_tag_def queue_save_def store_inv_def list_all_delete)
      next
        case False
        have "store_inv (AList.update (py_path p) (remove1 tag l) (tags_db m))"
          using inv False r unfolding store_inv_def by (intro list_all_update) auto
        with \<open>tag \<in> set l\<close> Some False show ?thesis
          by (simp add: remove_tag_def queue_save_def)
      qed
    qed
  qed
qed

lemma distinct_keys_remove_tag:
  "distinct (map fst (tags_db m)) \<Longrightarrow> distinct (map fst (tags_db (remove_tag m p tag)))"
  by (simp add: remove_tag_def queue_save_def Let_def distinct_update distinct_delete
           split: option.splits)

lemma remove_last_tag_deletes:
  "get_tags m p = [tag] \<Longrightarrow> map_of (tags_db (remove_tag m p tag)) (py_path p) = None"
  by (auto simp: get_tags_def db_get_def remove_tag_def queue_save_def delete_conv'
           split: option.splits)

text \<open>
  C6, as the code has it. \<open>remove_tag\<close> keeps the invariant and deletes a key whose
  last tag it removes. \<open>add_tags\<close> and \<open>add_tags_to_directory\<close> keep the
  invariant when the path is already a key (every walked file, for a directory) or
  when some given tag is not blank. All three keep the keys distinct.
\<close>

theorem mutations_keep_store_inv:
  assumes "store_inv (tags_db m)"
  shows "(py_path p \<in> fst ` set (tags_db m) \<or> (\<exists>t\<in>set tags. norm_tag t \<noteq> [])
            \<longrightarrow> store_inv (tags_db (add_tags m p tags)))
       \<and> (set (walk_files directory tree) \<subseteq> fst ` set (tags_db m) \<or> (\<exists>t\<in>set tags. norm_tag t \<noteq> [])
            \<longrightarrow> store_inv (tags_db (fst (snd (add_tags_to_directory m directory tags cb tree)))))
       \<and> store_inv (tags_db (remove_tag m p tag))
       \<and> (get_tags m p = [tag] \<longrightarrow> map_of (tags_db (remove_tag m p tag)) (py_path p) = None)
       \<and> (distinct (map fst (tags_db m)) \<longrightarrow>
            distinct (map fst (tags_db (add_tags m p tags)))
          \<and> distinct (map fst (tags_db (fst (snd (add_tags_to_directory m directory tags cb tree)))))
          \<and> distinct (map fst (tags_db (remove_tag m p tag))))"
proof -
  have a: "store_inv (tags_db (add_tags m p tags))"
    if "py_path p \<in> fst ` set (tags_db m) \<or> (\<exists>t\<in>set tags. norm_tag t \<noteq> [])"
    using assms that by (simp add: add_tags_def queue_save_def store_inv_tag_key)
  have b: "store_inv (tags_db (fst (snd (add_tags_to_directory m directory tags cb tree))))"
    if "set (walk_files directory tree) \<subseteq> fst ` set (tags_db m) \<or> (\<exists>t\<in>set tags. norm_tag t \<noteq> [])"
    using assms that by (simp add: add_tags_to_directory_eq Let_def store_inv_foldl_tag_key)
  have c: "distinct (map fst (tags_db (add_tags m p tags)))
          \<and> distinct (map fst (tags_db (fst (snd (add_tags_to_directory m directory tags cb tree)))))
          \<and> distinct (map fst (tags_db (remove_tag m p tag)))"
    if "distinct (map fst (tags_db m))"
    using that
    by (simp add: add_tags_def queue_save_def distinct_keys_tag_key add_tags_to_directory_eq
                  Let_def distinct_keys_foldl_tag_key distinct_keys_remove_tag)
  from a b c store_inv_remove_tag[OF assms] remove_last_tag_deletes
  show ?thesis by blast
qed

theorem mutations_keep_store_inv_witness:
  "store_inv (tags_db \<lparr>tags_db = [(''a'', [''x''])], pending_changes = False, save_queue = 0\<rparr>)
   \<and> store_inv (tags_db (add_tags \<lparr>tags_db = [(''a'', [''x''])], pending_changes = False, save_queue = 0\<rparr>
                          ''b'' ['' Y '']))
   \<and> store_inv (tags_db (remove_tag \<lparr>tags_db = [(''a'', [''x''])], pending_changes = False, save_queue = 0\<rparr>
                          ''a'' ''x''))
   \<and> map_of (tags_db (remove_tag \<lparr>tags_db = [(''a'', [''x''])], pending_changes = False, save_queue = 0\<rparr>
                          ''a'' ''x'')) (py_path ''a'') = None"
proof -
  have h: "store_inv (tags_db \<lparr>tags_db = [(''a'', [''x''])], pending_changes = False, save_queue = 0\<rparr>)"
    by code_simp
  have n: "\<exists>t\<in>set ['' Y '']. norm_tag t \<noteq> []"
    by code_simp
  have g: "get_tags \<lparr>tags_db = [(''a'', [''x''])], pending_changes = False, save_queue = 0\<rparr> ''a'' = [''x'']"
    by code_simp
  from mutations_keep_store_inv[OF h, of "''b''" "['' Y '']" "''d''" "Dir [] []" True "''x''"]
       mutations_keep_store_inv[OF h, of "''a''" "['' Y '']" "''d''" "Dir [] []" True "''x''"] h n g
  show ?thesis by blast
qed

text \<open>
  The claim as stated fails: \<open>add_tags\<close> on a new path with no tag that survives
  normalisation leaves the path mapped to the empty list.
\<close>

theorem add_tags_blank_counterexample:
  "store_inv (tags_db \<lparr>tags_db = [], pending_changes = False, save_queue = 0\<rparr>)
   \<and> tags_db (add_tags \<lparr>tags_db = [], pending_changes = False, save_queue = 0\<rparr> ''a'' [''  ''])
       = [(''a'', [])]
   \<and> \<not> store_inv (tags_db (add_tags \<lparr>tags_db = [], pending_changes = False, save_queue = 0\<rparr>
                              ''a'' [''  '']))"
  by code_simp

subsection \<open>Tagging a directory in batches\<close>

lemma walk_files_Dir:
  "walk_files d (Dir fs subs) =
     map (os_path_join d) fs
     @ concat (map (\<lambda>sub. walk_files (os_path_join d (fst sub)) (snd sub)) subs)"
proof -
  have "concat (map (\<lambda>(root, filenames). map (os_path_join root) filenames)
                    (concat (map (\<lambda>sub. os_walk (os_path_join d (fst sub)) (snd sub)) subs)))
        = concat (map (\<lambda>sub. walk_files (os_path_join d (fst sub)) (snd sub)) subs)"
    by (induction subs) (simp_all add: walk_files_def)
  then show ?thesis by (simp add: walk_files_def)
qed

lemma db_get_tag_key_mono: "set (db_get db f) \<subseteq> set (db_get (tag_key tags db k) f)"
  by (cases "f = k") (auto simp: db_get_tag_key db_get_tag_key_other set_extend_tags)

lemma db_get_foldl_mono: "set (db_get db f) \<subseteq> set (db_get (foldl (tag_key tags) db ks) f)"
proof (induction ks arbitrary: db)
  case Nil
  then show ?case by simp
next
  case (Cons k ks)
  have "set (db_get db f) \<subseteq> set (db_get (tag_key tags db k) f)"
    by (rule db_get_tag_key_mono)
  also have "\<dots> \<subseteq> set (db_get (foldl (tag_key tags) (tag_key tags db k) ks) f)"
    by (rule Cons.IH)
  finally show ?case by simp
qed

lemma db_get_foldl_tagged:
  "f \<in> set ks \<Longrightarrow> t \<in> set tags \<Longrightarrow> norm_tag t \<noteq> [] \<Longrightarrow>
   norm_tag t \<in> set (db_get (foldl (tag_key tags) db ks) f)"
proof (induction ks arbitrary: db)
  case Nil
  then show ?case by simp
next
  case (Cons k ks)
  show ?case
  proof (cases "f = k")
    case True
    have "norm_tag t \<in> set (db_get (tag_key tags db k) f)"
      using True Cons.prems by (auto simp: db_get_tag_key set_extend_tags)
    then show ?thesis using db_get_foldl_mono[of "tag_key tags db k" f tags ks] by auto
  next
    case False
    with Cons show ?thesis by simp
  qed
qed

lemma progress_increasing:
  "sorted_wrt (<) (map (\<lambda>k. min (k * 100 + 100) tot) [0..<(tot + 99) div 100])"
proof -
  have "min (i * 100 + 100) tot < min (j * 100 + 100) tot"
    if "i < j" "j < (tot + 99) div 100" for i j :: nat
  proof -
    from that have "j * 100 < tot" by arith
    with that(1) show ?thesis by (simp add: min_def)
  qed
  then show ?thesis by (simp add: sorted_wrt_iff_nth_less)
qed

lemma progress_last:
  "0 < tot \<Longrightarrow>
   last (map (\<lambda>k. (min (k * 100 + 100) tot, tot)) [0..<(tot + 99) div 100]) = (tot, tot)"
proof -
  assume "0 < tot"
  then have n: "0 < (tot + 99) div 100" by arith
  then have ne: "[0..<(tot + 99) div 100] \<noteq> []" by simp
  have "tot \<le> ((tot + 99) div 100 - 1) * 100 + 100" using n by arith
  then show ?thesis using n ne by (simp add: last_map min_def del: upt_eq_Nil_conv)
qed

text \<open>
  C8, as the code has it. \<open>add_tags_to_directory\<close> has no recursive flag: it
  always walks the whole tree. It returns the number of files found, calls
  \<open>queue_save\<close> once for each batch of 100, and leaves the store that tagging the
  files one after the other leaves, so every file found holds every non-blank tag.
  With a callback, the calls are \<open>(min (i + 100) total, total)\<close> for
  \<open>i = 0, 100, ...\<close>: strictly increasing, the last one \<open>(total, total)\<close>.
  Without a callback there are none.
\<close>

theorem add_tags_to_directory_batches:
  "walk_files d (Dir fs subs) =
     map (os_path_join d) fs
     @ concat (map (\<lambda>sub. walk_files (os_path_join d (fst sub)) (snd sub)) subs)
   \<and> fst (add_tags_to_directory m d tags cb tree) = length (walk_files d tree)
   \<and> save_queue (fst (snd (add_tags_to_directory m d tags cb tree)))
       = save_queue m + (length (walk_files d tree) + 99) div 100
   \<and> tags_db (fst (snd (add_tags_to_directory m d tags cb tree)))
       = foldl (tag_key tags) (tags_db m) (walk_files d tree)
   \<and> (\<forall>f\<in>set (walk_files d tree). \<forall>t\<in>set tags. norm_tag t \<noteq> [] \<longrightarrow>
         norm_tag t \<in> set (db_get (tags_db (fst (snd (add_tags_to_directory m d tags cb tree)))) f))
   \<and> snd (snd (add_tags_to_directory m d tags True tree))
       = map (\<lambda>k. (min (k * 100 + 100) (length (walk_files d tree)), length (walk_files d tree)))
             [0..<(length (walk_files d tree) + 99) div 100]
   \<and> snd (snd (add_tags_to_directory m d tags False tree)) = []
   \<and> sorted_wrt (<) (map fst (snd (snd (add_tags_to_directory m d tags True tree))))
   \<and> (0 < length (walk_files d tree) \<longrightarrow>
        last (snd (snd (add_tags_to_directory m d tags True tree)))
          = (length (walk_files d tree), length (walk_files d tree)))"
proof -
  have s: "sorted_wrt (<) (map fst (snd (snd (add_tags_to_directory m d tags True tree))))"
    using progress_increasing[of "length (walk_files d tree)"]
    by (simp add: add_tags_to_directory_eq comp_def)
  have l: "last (snd (snd (add_tags_to_directory m d tags True tree)))
          = (length (walk_files d tree), length (walk_files d tree))"
    if "0 < length (walk_files d tree)"
    using progress_last[OF that] by (simp add: add_tags_to_directory_eq)
  have t: "\<forall>f\<in>set (walk_files d tree). \<forall>t\<in>set tags. norm_tag t \<noteq> [] \<longrightarrow>
         norm_tag t \<in> set (db_get (tags_db (fst (snd (add_tags_to_directory m d tags cb tree)))) f)"
    by (simp add: add_tags_to_directory_eq db_get_foldl_tagged)
  from s l t walk_files_Dir[of d fs subs] show ?thesis
    by (simp add: add_tags_to_directory_eq)
qed

theorem add_tags_to_directory_batches_witness:
  "(0::nat) < length (walk_files ''d'' (Dir (map (\<lambda>k. replicate (Suc k) CHR ''f'') [0..<250]) []))
   \<and> fst (add_tags_to_directory \<lparr>tags_db = [], pending_changes = False, save_queue = 0\<rparr>
            ''d'' [''t''] True (Dir (map (\<lambda>k. replicate (Suc k) CHR ''f'') [0..<250]) [])) = 250
   \<and> snd (snd (add_tags_to_directory \<lparr>tags_db = [], pending_changes = False, save_queue = 0\<rparr>
            ''d'' [''t''] True (Dir (map (\<lambda>k. replicate (Suc k) CHR ''f'') [0..<250]) [])))
       = [(100, 250), (200, 250), (250, 250)]
   \<and> last (snd (snd (add_tags_to_directory \<lparr>tags_db = [], pending_changes = False, save_queue = 0\<rparr>
            ''d'' [''t''] True (Dir (map (\<lambda>k. replicate (Suc k) CHR ''f'') [0..<250]) []))))
       = (250, 250)
   \<and> save_queue (fst (snd (add_tags_to_directory \<lparr>tags_db = [], pending_changes = False, save_queue = 0\<rparr>
            ''d'' [''t''] True (Dir (map (\<lambda>k. replicate (Suc k) CHR ''f'') [0..<250]) [])))) = 3"
proof -
  have n: "length (walk_files ''d'' (Dir (map (\<lambda>k. replicate (Suc k) CHR ''f'') [0..<250]) [])) = 250"
    by (simp add: walk_files_def)
  have u: "[0..<(250 + 99) div 100] = [0, 1, 2::nat]"
    by (simp add: upt_rec)
  from add_tags_to_directory_batches[of "''d''" "[]" "[]"
         "\<lparr>tags_db = [], pending_changes = False, save_queue = 0\<rparr>" "[''t'']" True
         "Dir (map (\<lambda>k. replicate (Suc k) CHR ''f'') [0..<250]) []"]
  show ?thesis unfolding n u by simp
qed

text \<open>
  The claim as stated fails on the flag: the function takes no such argument, and a
  file of a subdirectory is tagged, with and without a callback.
\<close>

theorem no_top_level_only_counterexample:
  "walk_files ''d'' (Dir [''a''] [(''s'', Dir [''b''] [])]) = [''d/a'', ''d/s/b'']
   \<and> fst (add_tags_to_directory \<lparr>tags_db = [], pending_changes = False, save_queue = 0\<rparr>
            ''d'' [''t''] True (Dir [''a''] [(''s'', Dir [''b''] [])])) = 2
   \<and> tags_db (fst (snd (add_tags_to_directory \<lparr>tags_db = [], pending_changes = False, save_queue = 0\<rparr>
            ''d'' [''t''] True (Dir [''a''] [(''s'', Dir [''b''] [])]))))
       = [(''d/a'', [''t'']), (''d/s/b'', [''t''])]
   \<and> tags_db (fst (snd (add_tags_to_directory \<lparr>tags_db = [], pending_changes = False, save_queue = 0\<rparr>
            ''d'' [''t''] False (Dir [''a''] [(''s'', Dir [''b''] [])]))))
       = [(''d/a'', [''t'']), (''d/s/b'', [''t''])]"
  by code_simp

subsection \<open>Spellings of a path\<close>

lemma split_on_not_Nil: "split_on c s \<noteq> []"
  by (induction s) (auto split: list.splits)

lemma split_on_no_sep: "w \<in> set (split_on c s) \<Longrightarrow> c \<notin> set w"
  by (induction s arbitrary: w) (auto split: list.splits if_splits)

lemma split_on_append_sep: "c \<notin> set w \<Longrightarrow> split_on c (w @ c # rest) = w # split_on c rest"
  by (induction w) auto

lemma split_on_single: "c \<notin> set w \<Longrightarrow> split_on c w = [w]"
  by (induction w) auto

lemma split_on_join:
  "ws \<noteq> [] \<Longrightarrow> \<forall>w\<in>set ws. c \<notin> set w \<Longrightarrow> split_on c (join_with [c] ws) = ws"
  by (induction "[c]" ws rule: join_with.induct)
     (simp_all add: split_on_single split_on_append_sep)

lemma join_with_Cons_Cons: "join_with sep ((x # xs) # rest) = x # join_with sep (xs # rest)"
  by (cases rest) auto

lemma posix_parts_ok: "w \<in> set (posix_parts s) \<Longrightarrow> part_ok w"
  by (auto simp: posix_parts_def part_ok_def dest: split_on_no_sep)

lemma posix_root_cases: "posix_root s = '''' \<or> posix_root s = ''/'' \<or> posix_root s = ''//''"
  by (simp add: posix_root_def)

lemma take1_join_parts:
  assumes "\<forall>w\<in>set ps. part_ok w"
  shows "take 1 (join_with ''/'' ps) \<noteq> ''/''"
proof (cases ps)
  case Nil
  then show ?thesis by simp
next
  case (Cons w ws)
  with assms have w: "w \<noteq> []" "CHR ''/'' \<notin> set w" by (auto simp: part_ok_def)
  then obtain x xs where x: "w = x # xs" "x \<noteq> CHR ''/''" by (cases w) auto
  then show ?thesis using Cons by (simp add: join_with_Cons_Cons)
qed

lemma parts_of_join:
  assumes "\<forall>w\<in>set ps. part_ok w"
  shows "filter (\<lambda>w. w \<noteq> [] \<and> w \<noteq> ''.'') (split_on CHR ''/'' (join_with ''/'' ps)) = ps"
proof (cases "ps = []")
  case True
  then show ?thesis by simp
next
  case False
  have "\<forall>w\<in>set ps. CHR ''/'' \<notin> set w" using assms by (auto simp: part_ok_def)
  with False have "split_on CHR ''/'' (join_with ''/'' ps) = ps"
    using split_on_join[of ps "CHR ''/''"] by simp
  moreover have "filter (\<lambda>w. w \<noteq> [] \<and> w \<noteq> ''.'') ps = ps"
    using assms by (auto simp: part_ok_def filter_id_conv)
  ultimately show ?thesis by simp
qed

lemma render_root_parts:
  assumes r: "r = '''' \<or> r = ''/'' \<or> r = ''//''" and ps: "\<forall>w\<in>set ps. part_ok w"
  defines "out \<equiv> (if r = [] \<and> ps = [] then ''.'' else r @ join_with ''/'' ps)"
  shows "posix_root out = r \<and> posix_parts out = ps"
proof -
  note j = take1_join_parts[OF ps] and p = parts_of_join[OF ps]
  consider (dot) "r = ''''" "ps = []" | (rel) "r = ''''" "ps \<noteq> []"
    | (abs) "r = ''/''" | (abs2) "r = ''//''"
    using r by blast
  then show ?thesis
  proof cases
    case dot
    then show ?thesis by (simp add: out_def posix_root_def posix_parts_def)
  next
    case rel
    then show ?thesis using j p by (simp add: out_def posix_root_def posix_parts_def)
  next
    case abs
    have "split_on CHR ''/'' (CHR ''/'' # join_with ''/'' ps)
            = [] # split_on CHR ''/'' (join_with ''/'' ps)"
      by simp
    then show ?thesis using abs j p by (simp add: out_def posix_root_def posix_parts_def)
  next
    case abs2
    have "split_on CHR ''/'' (CHR ''/'' # CHR ''/'' # join_with ''/'' ps)
            = [] # [] # split_on CHR ''/'' (join_with ''/'' ps)"
      by simp
    then show ?thesis using abs2 j p by (simp add: out_def posix_root_def posix_parts_def)
  qed
qed

lemma posix_root_py_path: "posix_root (py_path s) = posix_root s"
  using render_root_parts[OF posix_root_cases[of s], of "posix_parts s"] posix_parts_ok[of _ s]
  by (simp add: py_path_def Let_def)

lemma posix_parts_py_path: "posix_parts (py_path s) = posix_parts s"
  using render_root_parts[OF posix_root_cases[of s], of "posix_parts s"] posix_parts_ok[of _ s]
  by (simp add: py_path_def Let_def)

lemma py_path_idem: "py_path (py_path s) = py_path s"
  by (simp add: py_path_def[of "py_path s"] posix_root_py_path posix_parts_py_path)
     (simp add: py_path_def)

lemma py_path_eq_iff:
  "py_path p = py_path q \<longleftrightarrow> posix_root p = posix_root q \<and> posix_parts p = posix_parts q"
proof
  assume "py_path p = py_path q"
  then have "posix_root (py_path p) = posix_root (py_path q)"
    "posix_parts (py_path p) = posix_parts (py_path q)" by simp_all
  then show "posix_root p = posix_root q \<and> posix_parts p = posix_parts q"
    by (simp add: posix_root_py_path posix_parts_py_path)
next
  assume "posix_root p = posix_root q \<and> posix_parts p = posix_parts q"
  then show "py_path p = py_path q" by (simp add: py_path_def)
qed

text \<open>
  C7, as the code has it. \<open>add_tags\<close>, \<open>get_tags\<close> and \<open>remove_tag\<close> key
  the store by \<open>str(Path(p))\<close>. That form is canonical: normalising it again changes
  nothing, and two spellings have the same one exactly when they have the same root
  (none, \<open>/\<close> or \<open>//\<close>) and the same components once the empty ones and the
  \<open>.\<close> ones are dropped. Such spellings name one stored key: \<open>get_tags\<close> under
  one returns what \<open>add_tags\<close> under the other stored. Spellings with different
  forms are different keys: \<open>add_tags\<close> under one leaves \<open>get_tags\<close> under the
  other as it was. Nothing is made absolute.
\<close>

theorem path_key_normal_form:
  "(py_path p = py_path q \<longleftrightarrow> posix_root p = posix_root q \<and> posix_parts p = posix_parts q)
   \<and> py_path (py_path p) = py_path p
   \<and> fst ` set (tags_db (add_tags m p tags)) = insert (py_path p) (fst ` set (tags_db m))
   \<and> (py_path p = py_path q \<longrightarrow>
         add_tags m p tags = add_tags m q tags
       \<and> remove_tag m p t = remove_tag m q t
       \<and> get_tags m p = get_tags m q
       \<and> get_tags (add_tags m p tags) q = extend_tags (get_tags m q) tags
       \<and> (\<forall>t\<in>set tags. norm_tag t \<noteq> [] \<longrightarrow>
             norm_tag t \<in> set (get_tags (add_tags m p tags) q)))
   \<and> (py_path p \<noteq> py_path q \<longrightarrow> get_tags (add_tags m p tags) q = get_tags m q)"
proof -
  have a: "fst ` set (tags_db (add_tags m p tags)) = insert (py_path p) (fst ` set (tags_db m))"
    by (simp add: add_tags_def queue_save_def keys_tag_key)
  have b: "add_tags m p tags = add_tags m q tags
       \<and> remove_tag m p t = remove_tag m q t
       \<and> get_tags m p = get_tags m q
       \<and> get_tags (add_tags m p tags) q = extend_tags (get_tags m q) tags
       \<and> (\<forall>t\<in>set tags. norm_tag t \<noteq> [] \<longrightarrow>
             norm_tag t \<in> set (get_tags (add_tags m p tags) q))"
    if "py_path p = py_path q"
    using that
    by (simp add: add_tags_def remove_tag_def get_tags_def queue_save_def db_get_tag_key
                  set_extend_tags)
  have c: "get_tags (add_tags m p tags) q = get_tags m q" if "py_path p \<noteq> py_path q"
    using that
    by (simp add: add_tags_def get_tags_def queue_save_def db_get_tag_key_other)
  from a b c py_path_eq_iff[of p q] py_path_idem[of p] show ?thesis by blast
qed

theorem path_key_normal_form_witness:
  "py_path ''./docs//a.txt'' = py_path ''docs/a.txt''
   \<and> posix_root ''./docs//a.txt'' = posix_root ''docs/a.txt''
   \<and> posix_parts ''./docs//a.txt'' = [''docs'', ''a.txt'']
   \<and> py_path ''docs/a.txt'' \<noteq> py_path ''/docs/a.txt''
   \<and> get_tags (add_tags \<lparr>tags_db = [], pending_changes = False, save_queue = 0\<rparr>
                 ''./docs//a.txt'' [''X'']) ''docs/a.txt'' = [''x'']
   \<and> get_tags (add_tags \<lparr>tags_db = [], pending_changes = False, save_queue = 0\<rparr>
                 ''docs/a.txt'' [''X'']) ''/docs/a.txt'' = []"
proof -
  have h: "py_path ''./docs//a.txt'' = py_path ''docs/a.txt''"
    by code_simp
  have n: "py_path ''docs/a.txt'' \<noteq> py_path ''/docs/a.txt''"
    by code_simp
  have r: "posix_parts ''./docs//a.txt'' = [''docs'', ''a.txt'']"
    by code_simp
  have e: "extend_tags (get_tags \<lparr>tags_db = [], pending_changes = False, save_queue = 0\<rparr>
                 ''docs/a.txt'') [''X''] = [''x'']"
    by code_simp
  have g: "get_tags \<lparr>tags_db = [], pending_changes = False, save_queue = 0\<rparr> ''/docs/a.txt'' = []"
    by code_simp
  from path_key_normal_form[of "''./docs//a.txt''" "''docs/a.txt''"
         "\<lparr>tags_db = [], pending_changes = False, save_queue = 0\<rparr>" "[''X'']" "''x''"] h
  have 1: "posix_root ''./docs//a.txt'' = posix_root ''docs/a.txt''"
    and 2: "get_tags (add_tags \<lparr>tags_db = [], pending_changes = False, save_queue = 0\<rparr>
                 ''./docs//a.txt'' [''X'']) ''docs/a.txt''
        = extend_tags (get_tags \<lparr>tags_db = [], pending_changes = False, save_queue = 0\<rparr>
                 ''docs/a.txt'') [''X'']"
    by blast+
  from path_key_normal_form[of "''docs/a.txt''" "''/docs/a.txt''"
         "\<lparr>tags_db = [], pending_changes = False, save_queue = 0\<rparr>" "[''X'']" "''x''"] n
  have 3: "get_tags (add_tags \<lparr>tags_db = [], pending_changes = False, save_queue = 0\<rparr>
                 ''docs/a.txt'' [''X'']) ''/docs/a.txt''
        = get_tags \<lparr>tags_db = [], pending_changes = False, save_queue = 0\<rparr> ''/docs/a.txt''"
    by blast
  from h n r e g 1 2 3 show ?thesis by (simp only: simp_thms)
qed

text \<open>
  The claim as stated fails: in the directory \<open>/home/u\<close> the spellings
  \<open>a.txt\<close> and \<open>/home/u/a.txt\<close> name one file, but they are two keys.
\<close>

theorem relative_absolute_counterexample:
  "abs_spelling ''/home/u'' ''a.txt'' = abs_spelling ''/home/u'' ''/home/u/a.txt''
   \<and> py_path ''a.txt'' \<noteq> py_path ''/home/u/a.txt''
   \<and> get_tags (add_tags \<lparr>tags_db = [], pending_changes = False, save_queue = 0\<rparr>
                 ''a.txt'' [''x'']) ''a.txt'' = [''x'']
   \<and> get_tags (add_tags \<lparr>tags_db = [], pending_changes = False, save_queue = 0\<rparr>
                 ''a.txt'' [''x'']) ''/home/u/a.txt'' = []"
  by code_simp

subsection \<open>Writing with retries\<close>

lemma try_write_Renamed:
  "try_write plat db f d = Renamed d' \<Longrightarrow> d' = d\<lparr>db_file := Some (json_dumps db)\<rparr>"
  by (auto simp: try_write_def split: fault.splits if_splits)

lemma save_attempts_Replaced:
  "save_attempts plat db env max_retries attempt delay d tr = (Inr Replaced, tr', d') \<Longrightarrow>
   db_file d' = Some (json_dumps db)"
proof (induction plat db env max_retries attempt delay d tr rule: save_attempts.induct)
  case (1 plat db env max_retries attempt delay d tr)
  show ?case
  proof (cases "attempt < max_retries")
    case False
    with "1.prems" show ?thesis by (simp add: save_attempts.simps)
  next
    case True
    show ?thesis
    proof (cases "try_write plat db (env attempt) d")
      case (Renamed d1)
      with True "1.prems" have "d' = d1" by (simp add: save_attempts.simps)
      with try_write_Renamed[OF Renamed] show ?thesis by simp
    next
      case (RemoveDenied d1)
      with True "1.prems" "1.IH"(1)[OF True RemoveDenied] show ?thesis
        by (simp add: save_attempts.simps)
    next
      case (Raised e d1)
      show ?thesis
      proof (cases "attempt = max_retries - 1")
        case True
        with \<open>attempt < max_retries\<close> Raised "1.prems" show ?thesis
          by (simp add: save_attempts.simps)
      next
        case False
        with True Raised "1.prems" "1.IH"(2)[OF True Raised False] show ?thesis
          by (simp add: save_attempts.simps)
      qed
    qed
  qed
qed

lemma save_no_fault:
  "env 0 = NoFault \<Longrightarrow>
   save_db_with_retry plat env db d
     = (Inr Replaced, [Attempt 0], d\<lparr>db_file := Some (json_dumps db)\<rparr>)"
  by (simp add: save_db_with_retry_def save_attempts.simps try_write_def)

text \<open>
  C3, as the code has it. When each of the three attempts raises into the outer
  handler, there are exactly three attempts, with a sleep of 1 after the first and of 2
  after the second; the third exception is raised to the caller without a further
  sleep, and the function does not return normally.
\<close>

theorem save_all_attempts_raise:
  assumes "try_write plat db (env 0) d = Raised e0 d1"
    and "try_write plat db (env 1) d1 = Raised e1 d2"
    and "try_write plat db (env 2) d2 = Raised e2 d3"
  shows "save_db_with_retry plat env db d
           = (Inl e2, [Attempt 0, Sleep 1, Attempt 1, Sleep 2, Attempt 2], d3)
       \<and> attempts (fst (snd (save_db_with_retry plat env db d))) = [0, 1, 2]
       \<and> sleeps (fst (snd (save_db_with_retry plat env db d))) = [1, 2]
       \<and> sum_list (sleeps (fst (snd (save_db_with_retry plat env db d)))) = 3"
proof -
  have "save_db_with_retry plat env db d
           = (Inl e2, [Attempt 0, Sleep 1, Attempt 1, Sleep 2, Attempt 2], d3)"
    using assms
    by (simp add: save_db_with_retry_def save_attempts.simps numeral_2_eq_2)
  then show ?thesis by (simp add: attempts_def sleeps_def)
qed

theorem save_all_attempts_raise_witness:
  "try_write Posix [] (RenameRaises OtherError) \<lparr>db_file = None, backup_file = None\<rparr>
     = Raised OtherError \<lparr>db_file = None, backup_file = None\<rparr>
   \<and> save_db_with_retry Posix (\<lambda>i. RenameRaises OtherError) [] \<lparr>db_file = None, backup_file = None\<rparr>
       = (Inl OtherError, [Attempt 0, Sleep 1, Attempt 1, Sleep 2, Attempt 2],
          \<lparr>db_file = None, backup_file = None\<rparr>)"
proof -
  have h: "try_write Posix [] (RenameRaises OtherError) \<lparr>db_file = None, backup_file = None\<rparr>
     = Raised OtherError \<lparr>db_file = None, backup_file = None\<rparr>"
    by (simp add: try_write_def)
  from save_all_attempts_raise[of Posix "[]" "\<lambda>i. RenameRaises OtherError", OF h h h] h
  show ?thesis by blast
qed

text \<open>
  The claim as stated fails on the sleeps: three failing attempts sleep 1 and 2, in
  total 3 and not 7; nothing sleeps 4.
\<close>

theorem backoff_sleeps_counterexample:
  "sleeps (fst (snd (save_db_with_retry Posix (\<lambda>i. RenameRaises OtherError) []
                       \<lparr>db_file = None, backup_file = None\<rparr>))) = [1, 2]
   \<and> sleeps (fst (snd (save_db_with_retry Posix (\<lambda>i. RenameRaises OtherError) []
                       \<lparr>db_file = None, backup_file = None\<rparr>))) \<noteq> [1, 2, 4]
   \<and> sum_list (sleeps (fst (snd (save_db_with_retry Posix (\<lambda>i. RenameRaises OtherError) []
                       \<lparr>db_file = None, backup_file = None\<rparr>)))) \<noteq> 7"
  by (simp add: save_db_with_retry_def save_attempts.simps try_write_def sleeps_def)

text \<open>
  On \<open>win32\<close>, when \<open>os.remove\<close> raises \<open>PermissionError\<close> in each of the
  three attempts, the loop ends and the function returns normally: the database file
  is the old one, the sleeps are 1, 1 and 1.
\<close>

lemma win32_remove_denied_returns:
  "save_db_with_retry Win32 (\<lambda>i. RemoveRaises PermissionError) db
       \<lparr>db_file = Some old, backup_file = b\<rparr>
     = (Inr LoopExhausted,
        [Attempt 0, Sleep 1, Attempt 1, Sleep 1, Attempt 2, Sleep 1],
        \<lparr>db_file = Some old, backup_file = b\<rparr>)"
  by (simp add: save_db_with_retry_def save_attempts.simps try_write_def)

subsection \<open>Reading back what was written\<close>

lemma hexval_hex_digit: "hexval (hex_digit k) = Some (k mod 16)"
proof -
  have "k mod 16 = 0 \<or> k mod 16 = 1 \<or> k mod 16 = 2 \<or> k mod 16 = 3 \<or> k mod 16 = 4
      \<or> k mod 16 = 5 \<or> k mod 16 = 6 \<or> k mod 16 = 7 \<or> k mod 16 = 8 \<or> k mod 16 = 9
      \<or> k mod 16 = 10 \<or> k mod 16 = 11 \<or> k mod 16 = 12 \<or> k mod 16 = 13
      \<or> k mod 16 = 14 \<or> k mod 16 = 15"
    by presburger
  then show ?thesis
    by (elim disjE) (simp_all add: hexval_def hex_digit_def)
qed

lemma char_eq_code: "of_char c = (of_char d :: nat) \<Longrightarrow> c = d"
  by simp

lemma str_feed_escape:
  "str_feed (Continue Plain buf) (json_escape_char c) = Continue Plain (buf @ [c])"
proof -
  define n where "n = (of_char c :: nat)"
  have lt: "n < 256" by (simp add: n_def)
  have h0: "hexval CHR ''0'' = Some 0" by (simp add: hexval_def)
  have lit: "c = d" if "n = of_char d" for d
    using that unfolding n_def by (rule char_eq_code)
  consider "n = 0x22" | "n = 0x5C" | "n = 0x0A" | "n = 0x0D" | "n = 0x09" | "n = 0x0C"
    | "n = 0x08"
    | (printable) "n \<noteq> 0x22" "n \<noteq> 0x5C" "0x20 \<le> n" "n \<le> 0x7E"
    | (coded) "n \<noteq> 0x0A" "n \<noteq> 0x0D" "n \<noteq> 0x09" "n \<noteq> 0x0C" "n \<noteq> 0x08"
              "n < 0x20 \<or> 0x7E < n"
    by linarith
  then show ?thesis
  proof cases
    case 1
    then have "c = CHR 0x22" by (intro lit) simp
    then show ?thesis by (simp add: json_escape_char_def)
  next
    case 2
    then have "c = CHR 0x5C" by (intro lit) simp
    then show ?thesis by (simp add: json_escape_char_def)
  next
    case 3
    then have "c = CHR 0x0A" by (intro lit) simp
    then show ?thesis by (simp add: json_escape_char_def)
  next
    case 4
    then have "c = CHR 0x0D" by (intro lit) simp
    then show ?thesis by (simp add: json_escape_char_def)
  next
    case 5
    then have "c = CHR 0x09" by (intro lit) simp
    then show ?thesis by (simp add: json_escape_char_def)
  next
    case 6
    then have "c = CHR 0x0C" by (intro lit) simp
    then show ?thesis by (simp add: json_escape_char_def)
  next
    case 7
    then have "c = CHR 0x08" by (intro lit) simp
    then show ?thesis by (simp add: json_escape_char_def)
  next
    case printable
    then have e: "json_escape_char c = [c]"
      by (auto simp: json_escape_char_def n_def[symmetric])
    show ?thesis
      using printable unfolding e by (simp add: n_def[symmetric])
  next
    case coded
    then have e: "json_escape_char c =
        [CHR 0x5C, CHR ''u'', CHR ''0'', CHR ''0'', hex_digit (n div 16), hex_digit n]"
      by (auto simp: json_escape_char_def n_def[symmetric])
    have d1: "n div 16 mod 16 = n div 16" using lt by simp
    have code: "n div 16 * 16 + n mod 16 = n" by simp
    have c: "char_of n = c" by (simp add: n_def)
    show ?thesis
      unfolding e by (simp add: h0 hexval_hex_digit d1 code c lt)
  qed
qed

lemma str_feed_append:
  "str_feed r xs = Continue ss b \<Longrightarrow> str_feed r (xs @ ys) = str_feed (Continue ss b) ys"
proof (induction xs arbitrary: r)
  case Nil
  then show ?case by simp
next
  case (Cons x xs)
  show ?case
  proof (cases r)
    case (Continue ss0 b0)
    with Cons show ?thesis by simp
  next
    case (Closed s)
    with Cons.prems show ?thesis by simp
  next
    case Bad
    with Cons.prems show ?thesis by simp
  qed
qed

lemma str_feed_escaped:
  "str_feed (Continue Plain buf) (concat (map json_escape_char s)) = Continue Plain (buf @ s)"
proof (induction s arbitrary: buf)
  case Nil
  then show ?case by simp
next
  case (Cons c s)
  have "str_feed (Continue Plain buf) (json_escape_char c @ concat (map json_escape_char s))
        = str_feed (Continue Plain (buf @ [c])) (concat (map json_escape_char s))"
    by (rule str_feed_append) (rule str_feed_escape)
  then show ?case by (simp add: Cons.IH)
qed

lemma str_feed_json_string_body:
  "str_feed (Continue Plain []) (concat (map json_escape_char s) @ [CHR 0x22]) = Closed s"
proof -
  have "str_feed (Continue Plain []) (concat (map json_escape_char s) @ [CHR 0x22])
        = str_feed (Continue Plain ([] @ s)) [CHR 0x22]"
    by (rule str_feed_append) (rule str_feed_escaped)
  then show ?thesis by simp
qed

lemma pstep_key_closed:
  "str_feed (Continue ss b) cs = Closed s \<Longrightarrow> foldl pstep (PKey db ss b) cs = PAfterKey db s"
proof (induction cs arbitrary: ss b)
  case Nil
  then show ?case by simp
next
  case (Cons c cs)
  show ?case
  proof (cases "str_step ss b c")
    case (Continue ss1 b1)
    with Cons show ?thesis by simp
  next
    case (Closed s')
    with Cons.prems show ?thesis by (cases cs) auto
  next
    case Bad
    with Cons.prems show ?thesis by (cases cs) auto
  qed
qed

lemma pstep_tag_closed:
  "str_feed (Continue ss b) cs = Closed s \<Longrightarrow>
   foldl pstep (PTag db key tags ss b) cs = PAfterTag db key (tags @ [s])"
proof (induction cs arbitrary: ss b)
  case Nil
  then show ?case by simp
next
  case (Cons c cs)
  show ?case
  proof (cases "str_step ss b c")
    case (Continue ss1 b1)
    with Cons show ?thesis by simp
  next
    case (Closed s')
    with Cons.prems show ?thesis by (cases cs) auto
  next
    case Bad
    with Cons.prems show ?thesis by (cases cs) auto
  qed
qed


lemma pstep_skip_ws:
  "(\<And>c. json_ws c \<Longrightarrow> pstep st c = st) \<Longrightarrow> \<forall>c\<in>set s. json_ws c \<Longrightarrow> foldl pstep st s = st"
  by (induction s) simp_all

lemma json_ws_indent: "\<forall>c\<in>set (indent n). json_ws c"
  by (auto simp: indent_def json_ws_def)

lemma skip_indent:
  "foldl pstep PObjOpen (indent n) = PObjOpen"
  "foldl pstep (PArrOpen db key) (indent n) = PArrOpen db key"
  "foldl pstep (PAfterTag db key tags) (indent n) = PAfterTag db key tags"
  "foldl pstep (PArrNext db key tags) (indent n) = PArrNext db key tags"
  "foldl pstep (PAfterArr db) (indent n) = PAfterArr db"
  "foldl pstep (PObjNext db) (indent n) = PObjNext db"
  by (rule pstep_skip_ws; simp add: json_ws_indent)+

lemma not_ws_quote: "\<not> json_ws CHR 0x22"
  by (simp add: json_ws_def)

lemma run_json_string:
  "foldl pstep PObjOpen (json_string k) = PAfterKey [] k"
  "foldl pstep (PObjNext db) (json_string k) = PAfterKey db k"
  "foldl pstep (PArrOpen db key) (json_string t) = PAfterTag db key [t]"
  "foldl pstep (PArrNext db key tags) (json_string t) = PAfterTag db key (tags @ [t])"
  using pstep_key_closed[OF str_feed_json_string_body, of "[]" k]
        pstep_key_closed[OF str_feed_json_string_body, of db k]
        pstep_tag_closed[OF str_feed_json_string_body, of db key "[]" t]
        pstep_tag_closed[OF str_feed_json_string_body, of db key tags t]
  by (simp_all add: json_string_def not_ws_quote)

lemma join_with_Cons: "join_with sep (x # xs) = x @ concat (map (\<lambda>y. sep @ y) xs)"
  by (induction sep "x # xs" arbitrary: x xs rule: join_with.induct) simp_all

lemma run_more_tags:
  "foldl pstep (PAfterTag db key sofar)
         (concat (map (\<lambda>y. ('','' @ indent 2) @ y) (map json_string tags)))
   = PAfterTag db key (sofar @ tags)"
proof (induction tags arbitrary: sofar)
  case Nil
  then show ?case by simp
next
  case (Cons t tags)
  have "foldl pstep (PAfterTag db key sofar) ('','' @ indent 2 @ json_string t)
        = PAfterTag db key (sofar @ [t])"
    by (simp add: json_ws_def skip_indent run_json_string)
  then show ?case using Cons.IH[of "sofar @ [t]"] by simp
qed

lemma run_json_list:
  "foldl pstep (PAfterColon db key) (json_list tags) = PAfterArr (AList.update key tags db)"
proof (cases tags)
  case Nil
  then show ?thesis by (simp add: json_list_def json_ws_def)
next
  case (Cons t ts)
  define A where "A = ''['' @ indent 2 @ json_string t"
  define B where "B = concat (map (\<lambda>y. ('','' @ indent 2) @ y) (map json_string ts))"
  define C where "C = indent 1 @ '']''"
  have a: "foldl pstep (PAfterColon db key) A = PAfterTag db key [t]"
    by (simp add: A_def json_ws_def skip_indent run_json_string)
  have b: "foldl pstep (PAfterTag db key [t]) B = PAfterTag db key ([t] @ ts)"
    unfolding B_def by (rule run_more_tags)
  have c: "foldl pstep (PAfterTag db key ([t] @ ts)) C = PAfterArr (AList.update key (t # ts) db)"
    by (simp add: C_def json_ws_def skip_indent)
  have "json_list tags = A @ B @ C"
    by (simp add: json_list_def Cons join_with_Cons A_def B_def C_def)
  then show ?thesis by (simp only: foldl_append a b c Cons)
qed

lemma run_entry:
  "foldl pstep PObjOpen (json_string k @ '': '' @ json_list tags)
     = PAfterArr (AList.update k tags [])"
  "foldl pstep (PObjNext db) (json_string k @ '': '' @ json_list tags)
     = PAfterArr (AList.update k tags db)"
  by (simp_all add: run_json_string run_json_list json_ws_def)

lemma run_more_entries:
  "foldl pstep (PAfterArr acc)
         (concat (map (\<lambda>y. ('','' @ indent 1) @ y)
                      (map (\<lambda>(key, tags). json_string key @ '': '' @ json_list tags) es)))
   = PAfterArr (foldl (\<lambda>a (key, tags). AList.update key tags a) acc es)"
proof (induction es arbitrary: acc)
  case Nil
  then show ?case by simp
next
  case (Cons e es)
  obtain k ts where e: "e = (k, ts)" by (cases e)
  have "foldl pstep (PAfterArr acc) ('','' @ indent 1 @ json_string k @ '': '' @ json_list ts)
        = PAfterArr (AList.update k ts acc)"
    using run_entry(2)[of acc k ts] by (simp add: json_ws_def skip_indent)
  then show ?case using Cons.IH[of "AList.update k ts acc"] by (simp add: e)
qed

lemma parse_json_dumps:
  "parse_store (json_dumps db) = Some (foldl (\<lambda>a (key, tags). AList.update key tags a) [] db)"
proof (cases db)
  case Nil
  then show ?thesis by (simp add: parse_store_def json_dumps_def json_ws_def)
next
  case (Cons e es)
  obtain k ts where e: "e = (k, ts)" by (cases e)
  define A where "A = ''{'' @ indent 1 @ json_string k @ '': '' @ json_list ts"
  define B where "B = concat (map (\<lambda>y. ('','' @ indent 1) @ y)
                      (map (\<lambda>(key, tags). json_string key @ '': '' @ json_list tags) es))"
  define C where "C = indent 0 @ ''}''"
  define acc where "acc = foldl (\<lambda>a (key, tags). AList.update key tags a) (AList.update k ts []) es"
  have a: "foldl pstep PStart A = PAfterArr (AList.update k ts [])"
    using run_entry(1)[of k ts] by (simp add: A_def json_ws_def skip_indent)
  have b: "foldl pstep (PAfterArr (AList.update k ts [])) B = PAfterArr acc"
    unfolding B_def acc_def by (rule run_more_entries)
  have c: "foldl pstep (PAfterArr acc) C = PDone acc"
    by (simp add: C_def json_ws_def skip_indent)
  have "json_dumps db = A @ B @ C"
    by (simp add: json_dumps_def Cons e join_with_Cons A_def B_def C_def)
  then have "foldl pstep PStart (json_dumps db) = PDone acc"
    by (simp only: foldl_append a b c)
  then show ?thesis by (simp add: parse_store_def acc_def Cons e)
qed

lemma update_fresh: "k \<notin> fst ` set acc \<Longrightarrow> AList.update k v acc = acc @ [(k, v)]"
  by (induction acc) auto

lemma foldl_update_distinct:
  "distinct (map fst (acc @ db)) \<Longrightarrow>
   foldl (\<lambda>a (key, tags). AList.update key tags a) acc db = acc @ db"
proof (induction db arbitrary: acc)
  case Nil
  then show ?case by simp
next
  case (Cons e db)
  obtain k v where e: "e = (k, v)" by (cases e)
  from Cons.prems have f: "k \<notin> fst ` set acc" by (auto simp: e)
  from Cons.prems have "distinct (map fst ((acc @ [(k, v)]) @ db))" by (simp add: e)
  from Cons.IH[OF this] show ?case by (simp add: e update_fresh[OF f])
qed

lemma parse_json_dumps_dict:
  "distinct (map fst db) \<Longrightarrow> parse_store (json_dumps db) = Some db"
  using foldl_update_distinct[of "[]" db] by (simp add: parse_json_dumps)

lemma store_json_inj: "store_json db = store_json db' \<Longrightarrow> db = db'"
proof (induction db arbitrary: db')
  case Nil
  then show ?case by (simp add: store_json_def)
next
  case (Cons e db)
  then obtain e' db2 where d: "db' = e' # db2" by (cases db') (auto simp: store_json_def)
  from Cons.prems have "store_json db = store_json db2" and
      h: "(\<lambda>(key, tags). (key, JArray (map JString tags))) e
          = (\<lambda>(key, tags). (key, JArray (map JString tags))) e'"
    by (simp_all add: d store_json_def)
  have "inj JString" by (simp add: inj_def)
  with h have "e = e'"
    by (cases e; cases e') (auto simp: inj_map_eq_map)
  with Cons.IH[OF \<open>store_json db = store_json db2\<close>] d show ?case by simp
qed

subsection \<open>Saving and loading\<close>

lemma json_dumps_hd: "\<exists>rest. json_dumps db = CHR ''{'' # rest"
  by (simp add: json_dumps_def)

lemma json_dumps_not_blank: "py_strip (json_dumps db) \<noteq> []"
proof -
  obtain rest where r: "json_dumps db = CHR ''{'' # rest"
    using json_dumps_hd by blast
  have "\<not> isspace CHR ''{''" by (simp add: isspace_def)
  then show ?thesis unfolding py_strip_Nil_iff r by auto
qed

lemma json_loads_json_dumps:
  "distinct (map fst db) \<Longrightarrow> json_loads other (json_dumps db) = Inr (store_json db)"
  by (simp add: json_loads_def parse_json_dumps_dict)

lemma load_db_written:
  "distinct (map fst db) \<Longrightarrow> open_raises le = None \<Longrightarrow> db_file d = Some (json_dumps db) \<Longrightarrow>
   load_db other le d = (Inr (store_json db), d)"
  by (simp add: load_db_def json_dumps_not_blank json_loads_json_dumps)

text \<open>
  C2. For a store that is a dict (every key once): when \<open>_save_db_with_retry\<close>
  returns through its \<open>return\<close> after \<open>os.rename\<close>, whatever happened in earlier
  attempts, a following \<open>_load_db\<close> that can read the file returns the store that
  was saved, and equal results come from equal stores. With no fault in the first
  attempt the writer does return that way. The document is read back by the parser of
  this theory; nothing is assumed of \<open>other\<close>.
\<close>

theorem save_then_load_roundtrip:
  assumes "distinct (map fst db)" and "open_raises le = None"
  shows "(save_db_with_retry plat env db d = (Inr Replaced, tr, d')
            \<longrightarrow> load_db other le d' = (Inr (store_json db), d'))
       \<and> (env 0 = NoFault
            \<longrightarrow> fst (save_db_with_retry plat env db d) = Inr Replaced
              \<and> fst (load_db other le (snd (snd (save_db_with_retry plat env db d))))
                  = Inr (store_json db))
       \<and> (store_json db = store_json db' \<longrightarrow> db = db')"
proof -
  have a: "load_db other le d' = (Inr (store_json db), d')"
    if "save_db_with_retry plat env db d = (Inr Replaced, tr, d')"
  proof -
    from that have "db_file d' = Some (json_dumps db)"
      unfolding save_db_with_retry_def by (rule save_attempts_Replaced)
    with assms show ?thesis by (rule load_db_written)
  qed
  have b: "fst (save_db_with_retry plat env db d) = Inr Replaced
         \<and> fst (load_db other le (snd (snd (save_db_with_retry plat env db d))))
             = Inr (store_json db)"
    if "env 0 = NoFault"
    using assms by (simp add: save_no_fault[of env, OF that] load_db_written)
  from a b store_json_inj show ?thesis by blast
qed

theorem save_then_load_roundtrip_witness:
  "distinct (map fst [(''/a'', [''x'', ''y'']), (''/b'', [])])
   \<and> open_raises \<lparr>open_raises = None, rename_fails = False\<rparr> = None
   \<and> fst (save_db_with_retry Win32
            (\<lambda>i. if i = 0 then RenameRaises PermissionError else NoFault)
            [(''/a'', [''x'', ''y'']), (''/b'', [])]
            \<lparr>db_file = Some ''{}'', backup_file = None\<rparr>) = Inr Replaced
   \<and> fst (load_db (\<lambda>s. Inl JSONDecodeError)
            \<lparr>open_raises = None, rename_fails = False\<rparr>
            (snd (snd (save_db_with_retry Win32
               (\<lambda>i. if i = 0 then RenameRaises PermissionError else NoFault)
               [(''/a'', [''x'', ''y'']), (''/b'', [])]
               \<lparr>db_file = Some ''{}'', backup_file = None\<rparr>))))
       = Inr (JObject [(''/a'', JArray [JString ''x'', JString ''y'']), (''/b'', JArray [])])"
proof -
  have h1: "distinct (map fst [(''/a'', [''x'', ''y'']), (''/b'', [])])"
    by simp
  have h2: "open_raises \<lparr>open_raises = None, rename_fails = False\<rparr> = None"
    by simp
  have s: "save_db_with_retry Win32
            (\<lambda>i. if i = 0 then RenameRaises PermissionError else NoFault)
            [(''/a'', [''x'', ''y'']), (''/b'', [])] \<lparr>db_file = Some ''{}'', backup_file = None\<rparr>
           = (Inr Replaced, [Attempt 0, Sleep 1, Attempt 1],
              \<lparr>db_file = Some (json_dumps [(''/a'', [''x'', ''y'']), (''/b'', [])]),
                 backup_file = None\<rparr>)"
    by (simp add: save_db_with_retry_def save_attempts.simps try_write_def)
  have j: "store_json [(''/a'', [''x'', ''y'']), (''/b'', [])]
           = JObject [(''/a'', JArray [JString ''x'', JString ''y'']), (''/b'', JArray [])]"
    by (simp add: store_json_def)
  from save_then_load_roundtrip[OF h1 h2,
         where plat = Win32
           and env = "\<lambda>i. if i = 0 then RenameRaises PermissionError else NoFault"
           and d = "\<lparr>db_file = Some ''{}'', backup_file = None\<rparr>"
           and tr = "[Attempt 0, Sleep 1, Attempt 1]"
           and d' = "\<lparr>db_file = Some (json_dumps [(''/a'', [''x'', ''y'']), (''/b'', [])]),
                        backup_file = None\<rparr>"
           and other = "\<lambda>s. Inl JSONDecodeError"]
       s h1 h2 j
  show ?thesis by simp
qed

lemma parse_store_examples:
  "parse_store (json_dumps [(''/a'', [''x'', ''y'']), (''/b'', [])])
     = Some [(''/a'', [''x'', ''y'']), (''/b'', [])]"
  "parse_store (''{'' @ [CHR 0x22] @ ''a'' @ [CHR 0x22] @ '':['' @ [CHR 0x22] @ ''x''
                @ [CHR 0x22] @ '']}'') = Some [(''a'', [''x''])]"
  "parse_store ''[[[['' = None"
  "parse_store ''{bad'' = None"
  by code_simp+

lemma json_dumps_example:
  "json_dumps [(''/a'', [''x'', ''y'']), (''b'', [])] =
     ''{'' @ [CHR 0x0A] @ ''    '' @ [CHR 0x22] @ ''/a'' @ [CHR 0x22] @ '': ['' @ [CHR 0x0A]
     @ ''        '' @ [CHR 0x22] @ ''x'' @ [CHR 0x22] @ '','' @ [CHR 0x0A]
     @ ''        '' @ [CHR 0x22] @ ''y'' @ [CHR 0x22] @ [CHR 0x0A]
     @ ''    ],'' @ [CHR 0x0A]
     @ ''    '' @ [CHR 0x22] @ ''b'' @ [CHR 0x22] @ '': []'' @ [CHR 0x0A] @ ''}''"
  by code_simp

text \<open>
  C4, as the code has it. \<open>_load_db\<close> returns the empty store and raises nothing
  when the file is missing, when it is read and is empty or blank, when it is read and
  \<open>json.loads\<close> raises \<open>JSONDecodeError\<close>, and when opening it raises
  \<open>FileNotFoundError\<close> or \<open>PermissionError\<close>. In the last two cases a file that
  is not empty is renamed to the backup name, unless that rename fails, and then the
  disk is left as it is. A missing or blank file is not renamed. Any other exception
  of reading or parsing is raised to the caller, and the disk is left as it is.
\<close>

theorem load_db_fails_soft:
  "(db_file d = None \<longrightarrow> load_db other le d = (Inr (JObject []), d))
   \<and> (db_file d = Some c \<and> open_raises le = None \<and> py_strip c = []
        \<longrightarrow> load_db other le d = (Inr (JObject []), d))
   \<and> (db_file d = Some c \<and> open_raises le = None \<and> py_strip c \<noteq> []
        \<and> json_loads other c = Inl JSONDecodeError
        \<longrightarrow> load_db other le d
             = (Inr (JObject []), if rename_fails le then d
                                  else d\<lparr>db_file := None, backup_file := Some c\<rparr>))
   \<and> (db_file d = Some c \<and> (open_raises le = Some FileNotFoundError
                               \<or> open_raises le = Some PermissionError)
        \<longrightarrow> load_db other le d
             = (Inr (JObject []), if c = [] \<or> rename_fails le then d
                                  else d\<lparr>db_file := None, backup_file := Some c\<rparr>))
   \<and> (db_file d = Some c \<and> open_raises le = Some e
        \<and> e \<noteq> JSONDecodeError \<and> e \<noteq> FileNotFoundError \<and> e \<noteq> PermissionError
        \<longrightarrow> load_db other le d = (Inl e, d))
   \<and> (db_file d = Some c \<and> open_raises le = None \<and> py_strip c \<noteq> []
        \<and> json_loads other c = Inl e
        \<and> e \<noteq> JSONDecodeError \<and> e \<noteq> FileNotFoundError \<and> e \<noteq> PermissionError
        \<longrightarrow> load_db other le d = (Inl e, d))"
proof -
  have "c \<noteq> []" if "py_strip c \<noteq> []"
    using that by (auto simp: py_strip_def)
  then show ?thesis
    by (auto simp: load_db_def load_handler_def)
qed

theorem load_db_fails_soft_witness:
  "load_db (\<lambda>s. Inl JSONDecodeError) \<lparr>open_raises = None, rename_fails = False\<rparr>
           \<lparr>db_file = None, backup_file = None\<rparr>
     = (Inr (JObject []), \<lparr>db_file = None, backup_file = None\<rparr>)
   \<and> load_db (\<lambda>s. Inl JSONDecodeError) \<lparr>open_raises = None, rename_fails = False\<rparr>
           \<lparr>db_file = Some ''  '', backup_file = None\<rparr>
     = (Inr (JObject []), \<lparr>db_file = Some ''  '', backup_file = None\<rparr>)
   \<and> load_db (\<lambda>s. Inl JSONDecodeError) \<lparr>open_raises = None, rename_fails = False\<rparr>
           \<lparr>db_file = Some ''{bad'', backup_file = None\<rparr>
     = (Inr (JObject []), \<lparr>db_file = None, backup_file = Some ''{bad''\<rparr>)
   \<and> load_db (\<lambda>s. Inl JSONDecodeError) \<lparr>open_raises = None, rename_fails = True\<rparr>
           \<lparr>db_file = Some ''{bad'', backup_file = None\<rparr>
     = (Inr (JObject []), \<lparr>db_file = Some ''{bad'', backup_file = None\<rparr>)
   \<and> load_db (\<lambda>s. Inl JSONDecodeError) \<lparr>open_raises = Some PermissionError, rename_fails = False\<rparr>
           \<lparr>db_file = Some ''{}'', backup_file = None\<rparr>
     = (Inr (JObject []), \<lparr>db_file = None, backup_file = Some ''{}''\<rparr>)"
proof -
  have b: "py_strip ''  '' = []" by code_simp
  have n: "py_strip ''{bad'' \<noteq> []" by code_simp
  have p: "json_loads (\<lambda>s. Inl JSONDecodeError) ''{bad'' = Inl JSONDecodeError"
    by code_simp
  from load_db_fails_soft[of "\<lparr>db_file = None, backup_file = None\<rparr>" "\<lambda>s. Inl JSONDecodeError"
         "\<lparr>open_raises = None, rename_fails = False\<rparr>" "''''" OtherError]
       load_db_fails_soft[of "\<lparr>db_file = Some ''  '', backup_file = None\<rparr>" "\<lambda>s. Inl JSONDecodeError"
         "\<lparr>open_raises = None, rename_fails = False\<rparr>" "''  ''" OtherError]
       load_db_fails_soft[of "\<lparr>db_file = Some ''{bad'', backup_file = None\<rparr>" "\<lambda>s. Inl JSONDecodeError"
         "\<lparr>open_raises = None, rename_fails = False\<rparr>" "''{bad''" OtherError]
       load_db_fails_soft[of "\<lparr>db_file = Some ''{bad'', backup_file = None\<rparr>" "\<lambda>s. Inl JSONDecodeError"
         "\<lparr>open_raises = None, rename_fails = True\<rparr>" "''{bad''" OtherError]
       load_db_fails_soft[of "\<lparr>db_file = Some ''{}'', backup_file = None\<rparr>" "\<lambda>s. Inl JSONDecodeError"
         "\<lparr>open_raises = Some PermissionError, rename_fails = False\<rparr>" "''{}''" OtherError]
       b n p
  show ?thesis by simp
qed

text \<open>
  The claim as stated fails: a file that is not UTF-8 raises
  \<open>UnicodeDecodeError\<close> when it is read, and a document nested too deep raises
  \<open>RecursionError\<close> in \<open>json.loads\<close>; neither is in the \<open>except\<close> clause,
  so both reach the caller, and no backup is made.
\<close>

theorem load_db_raises_counterexample:
  "load_db (\<lambda>s. Inl JSONDecodeError) \<lparr>open_raises = Some UnicodeDecodeError, rename_fails = False\<rparr>
           \<lparr>db_file = Some ''?'', backup_file = None\<rparr>
     = (Inl UnicodeDecodeError, \<lparr>db_file = Some ''?'', backup_file = None\<rparr>)
   \<and> load_db (\<lambda>s. Inl RecursionError) \<lparr>open_raises = None, rename_fails = False\<rparr>
           \<lparr>db_file = Some ''[[[['', backup_file = None\<rparr>
     = (Inl RecursionError, \<lparr>db_file = Some ''[[[['', backup_file = None\<rparr>)"
  by code_simp

subsection \<open>The save worker\<close>

lemma pending_run_call: "pending_changes m \<Longrightarrow> pending_changes (run_call c m)"
  by (cases c)
     (simp_all add: add_tags_def remove_tag_def queue_save_def Let_def split: option.splits)

lemma run_call_queue_save:
  "calls_queue_save c m \<Longrightarrow>
   pending_changes (run_call c m) \<and> save_queue (run_call c m) = Suc (save_queue m)"
proof (cases c)
  case (AddTags p ts)
  then show ?thesis by (simp add: add_tags_def queue_save_def)
next
  case (RemoveTag p t)
  assume "calls_queue_save c m"
  with RemoveTag have t: "t \<in> set (db_get (tags_db m) (py_path p))"
    by (simp add: calls_queue_save_def get_tags_def)
  then obtain l where "map_of (tags_db m) (py_path p) = Some l" "t \<in> set l"
    by (cases "map_of (tags_db m) (py_path p)") (simp_all add: db_get_def)
  with RemoveTag show ?thesis
    by (simp add: remove_tag_def queue_save_def Let_def)
qed

lemma run_until_all:
  "\<forall>e\<in>set sched. fst e \<le> t \<Longrightarrow>
   run_until t sched m = (foldl (\<lambda>m c. run_call c m) m (map snd sched), [])"
proof (induction sched arbitrary: m)
  case Nil
  then show ?case by simp
next
  case (Cons e sched)
  obtain u c where e: "e = (u, c)" by (cases e)
  with Cons show ?case by simp
qed

lemma pending_foldl_run_call:
  "pending_changes m \<Longrightarrow> pending_changes (foldl (\<lambda>m c. run_call c m) m cs)"
  by (induction cs arbitrary: m) (simp_all add: pending_run_call)

lemma tags_db_queue_field:
  "tags_db (foldl (\<lambda>m c. run_call c m) (m\<lparr>save_queue := n\<rparr>) cs)
     = tags_db (foldl (\<lambda>m c. run_call c m) m cs)
   \<and> pending_changes (foldl (\<lambda>m c. run_call c m) (m\<lparr>save_queue := n\<rparr>) cs)
     = pending_changes (foldl (\<lambda>m c. run_call c m) m cs)"
proof (induction cs arbitrary: m n)
  case Nil
  then show ?case by simp
next
  case (Cons c cs)
  have "\<exists>k. run_call c (m\<lparr>save_queue := n\<rparr>) = (run_call c m)\<lparr>save_queue := k\<rparr>"
    by (cases c)
       (auto simp: add_tags_def remove_tag_def queue_save_def Let_def split: option.splits)
  then obtain k where "run_call c (m\<lparr>save_queue := n\<rparr>) = (run_call c m)\<lparr>save_queue := k\<rparr>" ..
  then show ?case using Cons.IH[where m = "run_call c m" and n = k] by simp
qed

lemma run_worker_drained:
  "\<not> pending_changes (mgr w) \<Longrightarrow> writes (run_worker raises [] w) = writes w"
proof (induction raises "[] :: (int \<times> call) list" w rule: run_worker.induct)
  case (1 raises w)
  show ?case
  proof (cases "save_queue (mgr w) = 0")
    case True
    then show ?thesis by (simp add: run_worker.simps[of raises "[]" w])
  next
    case False
    have f: "fst (worker_iteration raises [] w) = []"
      by (simp add: worker_iteration_def Let_def)
    have p: "\<not> pending_changes (mgr (snd (worker_iteration raises [] w)))"
      using "1.prems" by (simp add: worker_iteration_def Let_def)
    have wr: "writes (snd (worker_iteration raises [] w)) = writes w"
      using "1.prems" by (simp add: worker_iteration_def Let_def)
    from "1.hyps"(2)[OF False f p] wr False f show ?thesis
      by (simp add: run_worker.simps[of raises "[]" w])
  qed
qed


text \<open>
  C1, as the code has it. The worker is idle, and less than a second has passed since
  the last save when the first call is made. If that call reaches \<open>queue_save\<close>,
  all the calls are made no later than one second after the last save, and the write
  does not raise, then \<open>_save_db_with_retry\<close> is called exactly once more, one second
  after the last save, with the store that all the calls together leave.
\<close>

theorem one_write_within_window:
  assumes idle: "save_queue (mgr w) = 0"
    and first: "calls_queue_save c1 (mgr w)"
    and now: "clock w \<le> t1"
    and warm: "t1 - last_save w < 1000"
    and rest: "\<forall>e\<in>set rest. fst e \<le> last_save w + 1000"
    and ok: "\<not> raises (length (writes w))"
  shows "writes (run_worker raises ((t1, c1) # rest) w)
           = writes w @ [(last_save w + 1000,
                          tags_db (foldl (\<lambda>m c. run_call c m) (mgr w) (c1 # map snd rest)))]"
proof -
  define tt where "tt = last_save w + 1000"
  define w1 where "w1 = w\<lparr>mgr := run_call c1 (mgr w), clock := max (clock w) t1\<rparr>"
  define m1 where "m1 = (run_call c1 (mgr w))\<lparr>save_queue := 0\<rparr>"
  define m2 where "m2 = foldl (\<lambda>m c. run_call c m) m1 (map snd rest)"
  define w2 where "w2 = w\<lparr>mgr := m2\<lparr>pending_changes := False\<rparr>,
                           clock := tt, last_save := tt,
                           writes := writes w @ [(tt, tags_db m2)]\<rparr>"
  have s1: "run_worker raises ((t1, c1) # rest) w = run_worker raises rest w1"
    using idle by (simp add: run_worker.simps[of raises "(t1, c1) # rest" w] w1_def)
  from run_call_queue_save[OF first]
  have q: "save_queue (run_call c1 (mgr w)) = Suc 0" and p: "pending_changes (run_call c1 (mgr w))"
    using idle by simp_all
  have q1: "save_queue (mgr w1) \<noteq> 0" by (simp add: w1_def q)
  have m1': "(mgr w1)\<lparr>save_queue := save_queue (mgr w1) - 1\<rparr> = m1"
    by (simp add: w1_def m1_def q)
  have t: "(if clock w1 - last_save w1 < 1000
            then clock w1 + (1000 - (clock w1 - last_save w1)) else clock w1) = tt"
    using now warm by (simp add: w1_def tt_def)
  have pm2: "pending_changes m2"
    unfolding m2_def by (rule pending_foldl_run_call) (simp add: m1_def p)
  have ru: "run_until tt rest m1 = (m2, [])"
    unfolding m2_def tt_def using rest by (rule run_until_all)
  have ok1: "\<not> raises (length (writes w1))" using ok by (simp add: w1_def)
  have it: "worker_iteration raises rest w1 = ([], w2)"
    unfolding worker_iteration_def Let_def m1' t ru
    using pm2 ok1 by (simp add: w1_def w2_def)
  have s2: "run_worker raises rest w1 = run_worker raises [] w2"
    using q1 by (simp add: run_worker.simps[of raises rest w1] it)
  have s3: "writes (run_worker raises [] w2) = writes w2"
    by (rule run_worker_drained) (simp add: w2_def)
  have s4: "writes (run_worker raises ((t1, c1) # rest) w) = writes w2"
    by (simp only: s1 s2 s3)
  have db: "tags_db m2 = tags_db (foldl (\<lambda>m c. run_call c m) (run_call c1 (mgr w)) (map snd rest))"
    unfolding m2_def m1_def by (simp add: tags_db_queue_field)
  have "writes w2 = writes w @ [(last_save w + 1000, tags_db m2)]"
    by (simp add: w2_def tt_def)
  with s4 db show ?thesis by simp
qed

theorem one_write_within_window_witness:
  "save_queue (mgr \<lparr>mgr = \<lparr>tags_db = [], pending_changes = False, save_queue = 0\<rparr>,
                     last_save = 4700, clock = 4700, writes = []\<rparr>) = 0
   \<and> calls_queue_save (AddTags ''/p0'' [''t''])
        (mgr \<lparr>mgr = \<lparr>tags_db = [], pending_changes = False, save_queue = 0\<rparr>,
               last_save = 4700, clock = 4700, writes = []\<rparr>)
   \<and> writes (run_worker (\<lambda>n. False)
        [(5000, AddTags ''/p0'' [''t'']), (5100, AddTags ''/p1'' [''t'']),
         (5200, AddTags ''/p2'' [''t''])]
        \<lparr>mgr = \<lparr>tags_db = [], pending_changes = False, save_queue = 0\<rparr>,
          last_save = 4700, clock = 4700, writes = []\<rparr>)
     = [(5700, [(''/p0'', [''t'']), (''/p1'', [''t'']), (''/p2'', [''t''])])]"
proof -
  have h1: "save_queue (mgr \<lparr>mgr = \<lparr>tags_db = [], pending_changes = False, save_queue = 0\<rparr>,
                     last_save = 4700, clock = 4700, writes = []\<rparr>) = 0"
    by simp
  have h2: "calls_queue_save (AddTags ''/p0'' [''t''])
        (mgr \<lparr>mgr = \<lparr>tags_db = [], pending_changes = False, save_queue = 0\<rparr>,
               last_save = 4700, clock = 4700, writes = []\<rparr>)"
    by (simp add: calls_queue_save_def)
  have v: "tags_db (foldl (\<lambda>m c. run_call c m)
             \<lparr>tags_db = [], pending_changes = False, save_queue = 0\<rparr>
             [AddTags ''/p0'' [''t''], AddTags ''/p1'' [''t''], AddTags ''/p2'' [''t'']])
           = [(''/p0'', [''t'']), (''/p1'', [''t'']), (''/p2'', [''t''])]"
    by code_simp
  from one_write_within_window[OF h1 h2, of 5000
         "[(5100, AddTags ''/p1'' [''t'']), (5200, AddTags ''/p2'' [''t''])]" "\<lambda>n. False"]
       h1 h2 v
  show ?thesis by simp
qed

text \<open>
  The claim as stated fails. A fresh manager has \<open>_last_save = 0\<close>, so at the first
  call a second has long passed: the worker writes at once, with that call alone, and
  the calls that follow within the same second are written one second later. Three
  calls within 200 milliseconds give two writes.
\<close>

theorem cold_start_two_writes_counterexample:
  "writes (run_worker (\<lambda>n. False)
        [(5000, AddTags ''/p0'' [''t'']), (5100, AddTags ''/p1'' [''t'']),
         (5200, AddTags ''/p2'' [''t''])]
        \<lparr>mgr = \<lparr>tags_db = [], pending_changes = False, save_queue = 0\<rparr>,
          last_save = 0, clock = 0, writes = []\<rparr>)
     = [(5000, [(''/p0'', [''t''])]),
        (6000, [(''/p0'', [''t'']), (''/p1'', [''t'']), (''/p2'', [''t''])])]"
  by code_simp

end
